theory Spec2Isabelle
  imports Complex_Main
begin

section \<open>Strings\<close>

text \<open>
  A Python \<open>str\<close> is modelled as a \<open>string\<close>: each \<open>char\<close> stands for one code point
  below 256 (the Latin-1 range). The functions below follow what \<open>str.lower\<close> and
  \<open>str.strip\<close> do on these code points.
\<close>

definition is_upper :: "char \<Rightarrow> bool" where
  "is_upper c = (let n = (of_char c :: nat) in
     (65 \<le> n \<and> n \<le> 90) \<or> (192 \<le> n \<and> n \<le> 222 \<and> n \<noteq> 215))"

definition lower_char :: "char \<Rightarrow> char" where
  "lower_char c = (if is_upper c then char_of ((of_char c :: nat) + 32) else c)"

definition lower :: "string \<Rightarrow> string" where
  "lower s = map lower_char s"

text \<open>The code points below 256 that \<open>str.strip\<close> removes.\<close>

definition is_space :: "char \<Rightarrow> bool" where
  "is_space c = (let n = (of_char c :: nat) in
     (9 \<le> n \<and> n \<le> 13) \<or> (28 \<le> n \<and> n \<le> 32) \<or> n = 133 \<or> n = 160)"

definition strip :: "string \<Rightarrow> string" where
  "strip s = rev (dropWhile is_space (rev (dropWhile is_space s)))"

text \<open>\<open>str(n)\<close> for a non-negative integer.\<close>

fun str_nat :: "nat \<Rightarrow> string" where
  "str_nat n = (if n < 10 then [char_of (48 + n)]
                else str_nat (n div 10) @ [char_of (48 + n mod 10)])"

declare str_nat.simps [simp del]

section \<open>opusconv: bitrate classes\<close>

definition EXT_LOSSLESS :: "string set" where
  "EXT_LOSSLESS = {''.flac'', ''.wav'', ''.aiff'', ''.ape'', ''.alac'', ''.tak''}"

definition EXT_LOSSY :: "string set" where
  "EXT_LOSSY = {''.mp3'', ''.m4a'', ''.aac'', ''.ogg'', ''.wma''}"

definition get_bitrate :: "string \<Rightarrow> string option" where
  "get_bitrate extension =
     (let ext = lower extension in
      if ext \<in> EXT_LOSSLESS then Some ''96k''
      else if ext \<in> EXT_LOSSY then Some ''192k''
      else None)"

section \<open>opusconv: file names\<close>

text \<open>The character class of the regular expression in \<open>sanitize_filename\<close>:
  \<open>< > : " / \ | ? *\<close>.\<close>

definition illegal_chars :: "char set" where
  "illegal_chars = {CHR ''<'', CHR ''>'', CHR '':'', CHR 0x22, CHR ''/'', CHR 0x5C,
                    CHR ''|'', CHR ''?'', CHR ''*''}"

definition re_sub_illegal :: "string \<Rightarrow> string" where
  "re_sub_illegal s = map (\<lambda>c. if c \<in> illegal_chars then CHR ''_'' else c) s"

definition sanitize_filename :: "string \<Rightarrow> string" where
  "sanitize_filename name = strip (re_sub_illegal name)"

text \<open>
  A track of the parsed cue sheet. The cue parser is an external program; a key of its
  JSON object can be absent, hold \<open>null\<close>, or hold a value: for the text fields
  the text that \<open>str\<close> gives for it (a string is its own text), for the times a
  number. \<open>dict_get\<close> is \<open>d.get(key, default)\<close> and
  \<open>dict_get_none\<close> is \<open>d.get(key)\<close>; their result \<open>None\<close> is Python's \<open>None\<close>,
  which a \<open>null\<close> gives also when a default is passed.
\<close>

datatype 'a field = Absent | Null | Val 'a

definition dict_get :: "'a field \<Rightarrow> 'a \<Rightarrow> 'a option" where
  "dict_get f dflt = (case f of Absent \<Rightarrow> Some dflt | Null \<Rightarrow> None | Val v \<Rightarrow> Some v)"

definition dict_get_none :: "'a field \<Rightarrow> 'a option" where
  "dict_get_none f = (case f of Absent \<Rightarrow> None | Null \<Rightarrow> None | Val v \<Rightarrow> Some v)"

text \<open>\<open>str(v)\<close>, and \<open>v\<close> in an f-string, for a string or \<open>None\<close>.\<close>

definition py_str :: "string option \<Rightarrow> string" where
  "py_str v = (case v of None \<Rightarrow> ''None'' | Some s \<Rightarrow> s)"

record track =
  number :: "string field"
  title :: "string field"
  artist :: "string field"
  start :: "rat field"
  duration :: "rat field"

text \<open>The text of \<open>num\<close> in the f-strings of \<open>process_cue\<close>.\<close>

definition track_num :: "track \<Rightarrow> string" where
  "track_num t = py_str (dict_get (number t) ''00'')"

definition track_title :: "track \<Rightarrow> string option" where
  "track_title t = dict_get (title t) (''Track '' @ track_num t)"

text \<open>\<open>sanitize_filename\<close> starts with \<open>str(name)\<close>.\<close>

definition out_name :: "track \<Rightarrow> string" where
  "out_name t = track_num t @ '' - '' @ sanitize_filename (py_str (track_title t)) @ ''.opus''"

text \<open>
  The file name as the specification words it: the track number padded with zeros to
  two digits, then the separator, the sanitized title and the extension.
\<close>

definition zero_padded :: "string \<Rightarrow> string" where
  "zero_padded n = replicate (2 - length n) (CHR ''0'') @ n"

definition spec_out_name :: "string \<Rightarrow> string \<Rightarrow> string" where
  "spec_out_name num ttl = zero_padded num @ '' - '' @ sanitize_filename ttl @ ''.opus''"


section \<open>Paths and the file system\<close>

text \<open>
  A \<open>pathlib\<close> POSIX path: whether it is anchored at the root, and its components.
  \<open>Path_of\<close> is the constructor \<open>Path(s)\<close>: it splits at \<open>/\<close> and drops empty
  and \<open>.\<close> components. Symbolic links are not modelled.
\<close>

datatype path = Path (is_abs: bool) (parts: "string list")

fun split_on :: "char \<Rightarrow> string \<Rightarrow> string list" where
  "split_on sep [] = [[]]"
| "split_on sep (c # cs) =
     (if c = sep then [] # split_on sep cs
      else (case split_on sep cs of
              [] \<Rightarrow> [[c]]
            | w # ws \<Rightarrow> (c # w) # ws))"

definition Path_of :: "string \<Rightarrow> path" where
  "Path_of s = Path (s \<noteq> [] \<and> hd s = CHR ''/'')
                    (filter (\<lambda>p. p \<noteq> [] \<and> p \<noteq> ''.'') (split_on (CHR ''/'') s))"

text \<open>The operator \<open>p / s\<close>: an absolute right operand replaces the left one.\<close>

definition joinpath :: "path \<Rightarrow> string \<Rightarrow> path" where
  "joinpath p s = (let q = Path_of s in
     if is_abs q then q else Path (is_abs p) (parts p @ parts q))"

definition name :: "path \<Rightarrow> string" where
  "name p = (if parts p = [] then [] else last (parts p))"

definition parent :: "path \<Rightarrow> path" where
  "parent p = Path (is_abs p) (butlast (parts p))"

text \<open>\<open>str.rfind\<close> of one character: the last index where it occurs, if any.\<close>

definition rfind :: "char \<Rightarrow> string \<Rightarrow> nat option" where
  "rfind c s = (if c \<in> set s
     then Some (length s - 1 - length (takeWhile (\<lambda>x. x \<noteq> c) (rev s))) else None)"

text \<open>
  \<open>suffix\<close> and \<open>stem\<close> of the final component: the name is cut at its last dot when
  that dot is neither its first nor its last character.
\<close>

definition suffix :: "path \<Rightarrow> string" where
  "suffix p = (let n = name p in
     case rfind (CHR ''.'') n of
       Some i \<Rightarrow> if 0 < i \<and> i + 1 < length n then drop i n else []
     | None \<Rightarrow> [])"

definition stem :: "path \<Rightarrow> string" where
  "stem p = (let n = name p in
     case rfind (CHR ''.'') n of
       Some i \<Rightarrow> if 0 < i \<and> i + 1 < length n then take i n else n
     | None \<Rightarrow> n)"

text \<open>
  \<open>p.resolve()\<close> for an absolute path, symbolic links apart: a component \<open>..\<close> steps
  back to the parent and stays at the root.
\<close>

fun resolve_parts :: "string list \<Rightarrow> string list \<Rightarrow> string list" where
  "resolve_parts acc [] = rev acc"
| "resolve_parts acc (c # cs) =
     (if c = ''..'' then resolve_parts (tl acc) cs else resolve_parts (c # acc) cs)"

definition resolve :: "path \<Rightarrow> path" where
  "resolve p = Path (is_abs p) (resolve_parts [] (parts p))"

text \<open>The operator \<open>p / q\<close> on two path objects.\<close>

definition join_path :: "path \<Rightarrow> path \<Rightarrow> path" where
  "join_path p q = (if is_abs q then q else Path (is_abs p) (parts p @ parts q))"

text \<open>
  \<open>root / filename\<close> for a name listed in the directory \<open>root\<close>: a directory entry
  is one component (\<open>joinpath_child\<close> below relates it to \<open>joinpath\<close>).
\<close>

definition child :: "path \<Rightarrow> string \<Rightarrow> path" where
  "child p n = Path (is_abs p) (parts p @ [n])"

text \<open>
  \<open>p.relative_to(base)\<close>. The walker calls it on paths below \<open>source_dir\<close> with
  \<open>base = source_dir.parent\<close>, where \<open>base\<close> is a prefix of \<open>p\<close> (\<open>walk_below\<close>), so
  its \<open>ValueError\<close> is not reached; the model strips the prefix.
\<close>

definition relative_to :: "path \<Rightarrow> path \<Rightarrow> path" where
  "relative_to p base = Path False (drop (length (parts base)) (parts p))"

text \<open>\<open>p.with_suffix(suf)\<close>, for a path whose name is not empty.\<close>

definition with_suffix :: "path \<Rightarrow> string \<Rightarrow> path" where
  "with_suffix p suf = Path (is_abs p) (butlast (parts p) @ [stem p @ suf])"

definition endswith :: "string \<Rightarrow> string \<Rightarrow> bool" where
  "endswith s suf = (length suf \<le> length s \<and> drop (length s - length suf) s = suf)"

section \<open>opusconv: cue resolution\<close>

definition AUDIO_EXTS :: "string list" where
  "AUDIO_EXTS = [''.flac'', ''.ape'', ''.wav'', ''.tak'', ''.mp3'', ''.m4a'']"

text \<open>The loop of \<open>find_audio_for_cue\<close> over the extensions; \<open>ex\<close> is \<open>Path.exists\<close>.\<close>

fun first_existing :: "(path \<Rightarrow> bool) \<Rightarrow> path \<Rightarrow> string \<Rightarrow> string list \<Rightarrow> path option" where
  "first_existing ex cue_dir ref_stem [] = None"
| "first_existing ex cue_dir ref_stem (ext # exts) =
     (let candidate = joinpath cue_dir (ref_stem @ ext) in
      if ex candidate then Some candidate
      else first_existing ex cue_dir ref_stem exts)"

definition find_audio_for_cue :: "(path \<Rightarrow> bool) \<Rightarrow> path \<Rightarrow> string \<Rightarrow> path option" where
  "find_audio_for_cue ex cue_dir ref_filename =
     (let ref_path = joinpath cue_dir ref_filename in
      if ex ref_path then Some ref_path
      else first_existing ex cue_dir (stem (Path_of ref_filename)) AUDIO_EXTS)"

section \<open>opusconv: the external programs and the world\<close>

text \<open>
  The parsed cue sheet, as the JSON object of the cue parser. The code reads every key
  with \<open>dict.get\<close> and tests it for truth or passes \<open>''\<close> as the default, so an
  absent key, a \<open>null\<close> and \<open>False\<close>, the empty list or the empty string are the same
  to it. The lists are lists of tracks and of file names.
\<close>

record cue_data =
  single_file :: bool
  tracks :: "track list"
  files :: "string list"
  album :: string
  date :: string
  genre :: string
  disc :: string

text \<open>One invocation of \<open>opusencode.py\<close>, with the arguments \<open>run_opusencode\<close> builds.\<close>

record encode_call =
  enc_input :: path
  enc_output :: path
  enc_bitrate :: string
  enc_start :: "rat option"
  enc_duration :: "rat option"
  enc_metadata :: "(string \<times> string) list"

datatype event =
    MakeDirs path
  | Encode encode_call
  | CoverCp path path
  | CoverFix path

text \<open>
  The world: the paths that exist, and the invocations made so far, oldest first.
  Output printed to the terminal is not part of it.
\<close>

record world =
  present :: "path set"
  trace :: "event list"

text \<open>
  The programs \<open>opusconv\<close> does not define: the cue parser (\<open>None\<close> when it exits
  with an error or prints no JSON), the exit status of the encoder (\<open>True\<close> is exit
  status 0), and whether a failed encoder run leaves an output file behind.
\<close>

record env =
  cueparse :: "path \<Rightarrow> cue_data option"
  encode_ok :: "world \<Rightarrow> encode_call \<Rightarrow> bool"
  leaves_output :: "world \<Rightarrow> encode_call \<Rightarrow> bool"

definition run_opusencode :: "env \<Rightarrow> encode_call \<Rightarrow> world \<Rightarrow> bool \<times> world" where
  "run_opusencode E c w =
     (let ok = encode_ok E w c in
      (ok, w\<lparr>present := (if ok \<or> leaves_output E w c
                          then insert (enc_output c) (present w) else present w),
              trace := trace w @ [Encode c]\<rparr>))"

definition run_covercp :: "path \<Rightarrow> path \<Rightarrow> world \<Rightarrow> world" where
  "run_covercp source dest w = w\<lparr>trace := trace w @ [CoverCp source dest]\<rparr>"

definition run_coverfix :: "path \<Rightarrow> world \<Rightarrow> world" where
  "run_coverfix dest w = w\<lparr>trace := trace w @ [CoverFix dest]\<rparr>"

text \<open>\<open>os.makedirs(p, exist_ok=True)\<close>: the directory and all its ancestors exist afterwards.\<close>

definition ancestors :: "path \<Rightarrow> path list" where
  "ancestors p = map (\<lambda>n. Path (is_abs p) (take n (parts p))) [0..<Suc (length (parts p))]"

definition makedirs :: "path \<Rightarrow> world \<Rightarrow> world" where
  "makedirs p w = w\<lparr>present := present w \<union> set (ancestors p),
                     trace := trace w @ [MakeDirs p]\<rparr>"

definition exists :: "world \<Rightarrow> path \<Rightarrow> bool" where
  "exists w p = (p \<in> present w)"

section \<open>opusconv: the single-file album splitter\<close>

definition DEST_DIR :: path where
  "DEST_DIR = Path True [''home'', ''alice'', ''opus'']"

text \<open>
  The metadata dictionary of a track, and what \<open>run_opusencode\<close> passes on of it: a
  value that is \<open>None\<close> or empty is dropped.
\<close>

definition track_metadata :: "cue_data \<Rightarrow> nat \<Rightarrow> track \<Rightarrow> (string \<times> string) list" where
  "track_metadata cd total_n t =
     List.map_filter
       (\<lambda>(key, v). case v of None \<Rightarrow> None
                    | Some s \<Rightarrow> if s = [] then None else Some (key, s))
       [(''title'', track_title t),
        (''artist'', dict_get (artist t) []),
        (''album'', Some (album cd)),
        (''track'', Some (track_num t @ ''/'' @ str_nat total_n)),
        (''date'', Some (date cd)),
        (''genre'', Some (genre cd)),
        (''disc'', Some (disc cd))]"

text \<open>
  The call for a track: \<open>start\<close> is \<open>track.get('start', 0)\<close> and \<open>duration\<close> is
  \<open>track.get('duration')\<close>; \<open>run_opusencode\<close> leaves out an argument that is \<open>None\<close>.
\<close>

definition track_call :: "cue_data \<Rightarrow> path \<Rightarrow> string \<Rightarrow> path \<Rightarrow> nat \<Rightarrow> track \<Rightarrow> encode_call" where
  "track_call cd source_audio bitrate out_path total_n t =
     \<lparr>enc_input = source_audio, enc_output = out_path, enc_bitrate = bitrate,
      enc_start = dict_get (start t) 0,
      enc_duration = dict_get_none (duration t),
      enc_metadata = track_metadata cd total_n t\<rparr>"

text \<open>The loop of \<open>process_cue\<close> over the tracks.\<close>

fun process_tracks ::
  "env \<Rightarrow> cue_data \<Rightarrow> path \<Rightarrow> string \<Rightarrow> path \<Rightarrow> nat \<Rightarrow> track list \<Rightarrow> world \<Rightarrow> world" where
  "process_tracks E cd source_audio bitrate dest_subdir total_n [] w = w"
| "process_tracks E cd source_audio bitrate dest_subdir total_n (t # ts) w =
     (let out_path = joinpath dest_subdir (out_name t) in
      if exists w out_path
      then process_tracks E cd source_audio bitrate dest_subdir total_n ts w
      else (case run_opusencode E (track_call cd source_audio bitrate out_path total_n t) w of
              (ok, w1) \<Rightarrow>
                process_tracks E cd source_audio bitrate dest_subdir total_n ts
                  (if ok then run_coverfix out_path (run_covercp source_audio out_path w1)
                   else w1)))"

definition process_cue :: "env \<Rightarrow> path \<Rightarrow> path \<Rightarrow> world \<Rightarrow> bool \<times> world" where
  "process_cue E cue_path dest_subdir w =
     (case cueparse E cue_path of
        None \<Rightarrow> (False, w)
      | Some cd \<Rightarrow>
          if \<not> single_file cd then (False, w)
          else if tracks cd = [] then (False, w)
          else if files cd = [] then (False, w)
          else (case find_audio_for_cue (exists w) (parent cue_path) (hd (files cd)) of
                  None \<Rightarrow> (False, w)
                | Some source_audio \<Rightarrow>
                    (case get_bitrate (suffix source_audio) of
                       None \<Rightarrow> (False, w)
                     | Some bitrate \<Rightarrow>
                         (True, process_tracks E cd source_audio bitrate dest_subdir
                                  (length (tracks cd)) (tracks cd)
                                  (makedirs dest_subdir w)))))"

section \<open>opusconv: the library walker\<close>

text \<open>
  The tree below the source directory, as \<open>os.walk\<close> and \<open>rglob\<close> list it: the
  entries of a directory in listing order. The listing is taken once; files the run
  creates are not listed again.
\<close>

datatype entry = File string | Dir string "entry list"

fun file_names :: "entry list \<Rightarrow> string list" where
  "file_names [] = []"
| "file_names (File n # es) = n # file_names es"
| "file_names (Dir n sub # es) = file_names es"

text \<open>\<open>os.walk\<close>, top down: each directory with the names of its files.\<close>

fun walk :: "path \<Rightarrow> entry list \<Rightarrow> (path \<times> string list) list"
  and walk_dirs :: "path \<Rightarrow> entry list \<Rightarrow> (path \<times> string list) list" where
  "walk root_dir es = (root_dir, file_names es) # walk_dirs root_dir es"
| "walk_dirs root_dir [] = []"
| "walk_dirs root_dir (File n # es) = walk_dirs root_dir es"
| "walk_dirs root_dir (Dir n sub # es) = walk (child root_dir n) sub @ walk_dirs root_dir es"

text \<open>
  \<open>source_dir.rglob("*.cue")\<close>: every entry below the directory, file or
  directory, whose name ends with \<open>.cue\<close>. On POSIX the match is case-sensitive.
\<close>

fun rglob_cue :: "path \<Rightarrow> entry list \<Rightarrow> path list" where
  "rglob_cue root_dir [] = []"
| "rglob_cue root_dir (File n # es) =
     (if endswith n ''.cue'' then [child root_dir n] else []) @ rglob_cue root_dir es"
| "rglob_cue root_dir (Dir n sub # es) =
     (if endswith n ''.cue'' then [child root_dir n] else [])
     @ rglob_cue (child root_dir n) sub @ rglob_cue root_dir es"

text \<open>First pass: the loop over the referenced files of one cue sheet, then over the cue sheets.\<close>

fun claim_refs :: "world \<Rightarrow> path \<Rightarrow> string list \<Rightarrow> path set \<Rightarrow> path set" where
  "claim_refs w cue_dir [] cue_sources = cue_sources"
| "claim_refs w cue_dir (ref_file # refs) cue_sources =
     (case find_audio_for_cue (exists w) cue_dir ref_file of
        Some audio_path \<Rightarrow>
          claim_refs w cue_dir refs (insert (resolve audio_path) cue_sources)
      | None \<Rightarrow> claim_refs w cue_dir refs cue_sources)"

fun first_pass :: "env \<Rightarrow> world \<Rightarrow> path list \<Rightarrow> path set \<Rightarrow> path set" where
  "first_pass E w [] cue_sources = cue_sources"
| "first_pass E w (cue_path # cues) cue_sources =
     (case cueparse E cue_path of
        None \<Rightarrow> first_pass E w cues cue_sources
      | Some cd \<Rightarrow>
          if \<not> single_file cd then first_pass E w cues cue_sources
          else first_pass E w cues (claim_refs w (parent cue_path) (files cd) cue_sources))"

text \<open>Second pass, in one directory: the loop over the cue sheets.\<close>

fun cue_loop :: "env \<Rightarrow> path \<Rightarrow> path \<Rightarrow> string list \<Rightarrow> world \<Rightarrow> world" where
  "cue_loop E source_dir root_dir [] w = w"
| "cue_loop E source_dir root_dir (filename # fs) w =
     (if endswith (lower filename) ''.cue''
      then (let cue_path = child root_dir filename;
                relative = relative_to cue_path (parent source_dir);
                dest_subdir = join_path DEST_DIR (parent relative)
            in case cueparse E cue_path of
                 None \<Rightarrow> cue_loop E source_dir root_dir fs w
               | Some cd \<Rightarrow>
                   if single_file cd
                   then cue_loop E source_dir root_dir fs (snd (process_cue E cue_path dest_subdir w))
                   else cue_loop E source_dir root_dir fs w)
      else cue_loop E source_dir root_dir fs w)"

definition standalone_call :: "path \<Rightarrow> path \<Rightarrow> string \<Rightarrow> encode_call" where
  "standalone_call source_path dest_path bitrate =
     \<lparr>enc_input = source_path, enc_output = dest_path, enc_bitrate = bitrate,
      enc_start = None, enc_duration = None, enc_metadata = []\<rparr>"

text \<open>Second pass, in one directory: the loop over the standalone audio files.\<close>

fun file_loop :: "env \<Rightarrow> path set \<Rightarrow> path \<Rightarrow> path \<Rightarrow> string list \<Rightarrow> world \<Rightarrow> world" where
  "file_loop E cue_sources source_dir root_dir [] w = w"
| "file_loop E cue_sources source_dir root_dir (filename # fs) w =
     (let source_path = child root_dir filename in
      case get_bitrate (suffix source_path) of
        None \<Rightarrow> file_loop E cue_sources source_dir root_dir fs w
      | Some bitrate \<Rightarrow>
          if resolve source_path \<in> cue_sources
          then file_loop E cue_sources source_dir root_dir fs w
          else (let relative = relative_to source_path (parent source_dir);
                    dest_path = join_path DEST_DIR (with_suffix relative ''.opus'')
                in if exists w dest_path then file_loop E cue_sources source_dir root_dir fs w
                   else (case run_opusencode E (standalone_call source_path dest_path bitrate)
                                (makedirs (parent dest_path) w) of
                           (ok, w1) \<Rightarrow>
                             file_loop E cue_sources source_dir root_dir fs
                               (if ok then run_coverfix dest_path
                                             (run_covercp source_path dest_path w1)
                                else w1))))"

fun second_pass :: "env \<Rightarrow> path set \<Rightarrow> path \<Rightarrow> (path \<times> string list) list \<Rightarrow> world \<Rightarrow> world" where
  "second_pass E cue_sources source_dir [] w = w"
| "second_pass E cue_sources source_dir ((root_dir, fs) # dirs) w =
     second_pass E cue_sources source_dir dirs
       (file_loop E cue_sources source_dir root_dir fs (cue_loop E source_dir root_dir fs w))"

text \<open>
  \<open>convert_directory\<close> on the resolved \<open>source_dir\<close>; \<open>tree\<close> is \<open>None\<close> when the
  path does not exist or is not a directory.
\<close>

definition convert_directory :: "env \<Rightarrow> path \<Rightarrow> entry list option \<Rightarrow> world \<Rightarrow> world" where
  "convert_directory E source_dir tree w =
     (case tree of
        None \<Rightarrow> w
      | Some es \<Rightarrow>
          (let cue_sources = first_pass E w (rglob_cue source_dir es) {}
           in second_pass E cue_sources source_dir (walk source_dir es) w))"

section \<open>Bytes, base64 and picture blocks\<close>

text \<open>
  A Python \<open>bytes\<close> value is a list of \<open>char\<close>, the 8-bit type of HOL. The text fields
  of a picture (\<open>mime\<close>, \<open>desc\<close>) are Python strings of any code points: lists of
  natural numbers. \<open>text_of\<close> gives the code points of an ASCII literal.
\<close>

type_synonym bytes = "char list"

type_synonym utext = "nat list"

definition text_of :: "string \<Rightarrow> utext" where
  "text_of s = map of_char s"

text \<open>
  The exceptions. \<open>FlacError said got\<close> is mutagen's error for a short read, with the
  message \<open>file said <said> bytes, read <got> bytes\<close>.
\<close>

datatype error =
    OpenError
  | IOError
  | StructError
  | FlacError nat nat
  | BinasciiError
  | ValueError
  | UnicodeEncodeError
  | AttributeError
  | TypeError

text \<open>
  \<open>text.encode('UTF-8')\<close>: one to four bytes for a code point; a surrogate cannot be
  encoded.
\<close>

definition utf8_cp :: "nat \<Rightarrow> bytes" where
  "utf8_cp c =
     (if c < 128 then [char_of c]
      else if c < 2048 then [char_of (192 + c div 64), char_of (128 + c mod 64)]
      else if c < 65536
        then [char_of (224 + c div 4096), char_of (128 + c div 64 mod 64),
              char_of (128 + c mod 64)]
      else [char_of (240 + c div 262144), char_of (128 + c div 4096 mod 64),
            char_of (128 + c div 64 mod 64), char_of (128 + c mod 64)])"

definition encodable :: "nat \<Rightarrow> bool" where
  "encodable c = (c < 55296 \<or> (57344 \<le> c \<and> c < 1114112))"

definition utf8_encode :: "utext \<Rightarrow> error + bytes" where
  "utf8_encode t = (if list_all encodable t then Inr (concat (map utf8_cp t))
                    else Inl UnicodeEncodeError)"

text \<open>
  \<open>data.decode('UTF-8', 'replace')\<close>. A byte that cannot start a sequence, and the
  longest part of a sequence that is cut short by a wrong byte or by the end of the
  data, give the one code point \<open>U+FFFD\<close>; decoding goes on at the wrong byte. The
  second byte of a sequence is held to the range that rules out overlong forms,
  surrogates and code points above \<open>U+10FFFF\<close>.
\<close>

definition is_cont :: "nat \<Rightarrow> bool" where
  "is_cont v = (128 \<le> v \<and> v < 192)"

definition second_ok :: "nat \<Rightarrow> nat \<Rightarrow> bool" where
  "second_ok c v = (is_cont v \<and> \<not> (c = 224 \<and> v < 160) \<and> \<not> (c = 237 \<and> 160 \<le> v)
                     \<and> \<not> (c = 240 \<and> v < 144) \<and> \<not> (c = 244 \<and> 144 \<le> v))"

fun utf8_decode :: "bytes \<Rightarrow> utext" where
  "utf8_decode [] = []"
| "utf8_decode (b # bs) =
     (let c = (of_char b :: nat) in
      if c < 128 then c # utf8_decode bs
      else if c < 194 \<or> 245 \<le> c then 65533 # utf8_decode bs
      else (case bs of
              [] \<Rightarrow> [65533]
            | b1 # r1 \<Rightarrow>
                (let v1 = (of_char b1 :: nat) in
                 if c < 224
                 then (if is_cont v1 then ((c - 192) * 64 + (v1 - 128)) # utf8_decode r1
                       else 65533 # utf8_decode bs)
                 else if \<not> second_ok c v1 then 65533 # utf8_decode bs
                 else (case r1 of
                         [] \<Rightarrow> [65533]
                       | b2 # r2 \<Rightarrow>
                           (let v2 = (of_char b2 :: nat) in
                            if \<not> is_cont v2 then 65533 # utf8_decode r1
                            else if c < 240
                              then ((c - 224) * 4096 + (v1 - 128) * 64 + (v2 - 128))
                                   # utf8_decode r2
                            else (case r2 of
                                    [] \<Rightarrow> [65533]
                                  | b3 # r3 \<Rightarrow>
                                      (let v3 = (of_char b3 :: nat) in
                                       if is_cont v3
                                       then ((c - 240) * 262144 + (v1 - 128) * 4096
                                             + (v2 - 128) * 64 + (v3 - 128))
                                            # utf8_decode r3
                                       else 65533 # utf8_decode r2)))))))"

text \<open>\<open>struct.pack('>I', n)\<close> for \<open>n < 2\<^sup>3\<^sup>2\<close>, and \<open>struct.unpack\<close> of big-endian bytes.\<close>

definition be32 :: "nat \<Rightarrow> bytes" where
  "be32 n = [char_of (n div 16777216 mod 256), char_of (n div 65536 mod 256),
             char_of (n div 256 mod 256), char_of (n mod 256)]"

definition be_nat :: "bytes \<Rightarrow> nat" where
  "be_nat bs = foldl (\<lambda>acc c. acc * 256 + of_char c) 0 bs"

text \<open>The 64 characters of base64 by index, and the inverse table of \<open>binascii\<close>.\<close>

definition b64_char :: "nat \<Rightarrow> char" where
  "b64_char i =
     (if i < 26 then char_of (65 + i)
      else if i < 52 then char_of (71 + i)
      else if i < 62 then char_of (i - 4)
      else if i = 62 then CHR ''+'' else CHR ''/'')"

definition b64_value :: "char \<Rightarrow> nat option" where
  "b64_value c =
     (let n = (of_char c :: nat) in
      if 65 \<le> n \<and> n \<le> 90 then Some (n - 65)
      else if 97 \<le> n \<and> n \<le> 122 then Some (n - 71)
      else if 48 \<le> n \<and> n \<le> 57 then Some (n + 4)
      else if n = 43 then Some 62
      else if n = 47 then Some 63
      else None)"

text \<open>\<open>base64.b64encode\<close>: three bytes give four characters of six bits each, the
  rest is padded with \<open>=\<close>.\<close>

fun b64encode :: "bytes \<Rightarrow> string" where
  "b64encode [] = []"
| "b64encode [a] =
     (let x = (of_char a :: nat) in
      [b64_char (x div 4), b64_char (x mod 4 * 16), CHR ''='', CHR ''=''])"
| "b64encode [a, b] =
     (let x = (of_char a :: nat); y = (of_char b :: nat) in
      [b64_char (x div 4), b64_char (x mod 4 * 16 + y div 16), b64_char (y mod 16 * 4),
       CHR ''=''])"
| "b64encode (a # b # c # rest) =
     (let x = (of_char a :: nat); y = (of_char b :: nat); z = (of_char c :: nat) in
      [b64_char (x div 4), b64_char (x mod 4 * 16 + y div 16),
       b64_char (y mod 16 * 4 + z div 64), b64_char (z mod 64)] @ b64encode rest)"

text \<open>
  The loop of \<open>binascii.a2b_base64\<close> without strict mode, which \<open>base64.b64decode\<close>
  calls: \<open>quad_pos\<close> is the position in the group of four, \<open>leftchar\<close> the bits not yet
  written, \<open>pads\<close> the padding characters seen in a row. Characters outside the alphabet
  are skipped; padding that completes a group ends the input; an incomplete group at
  the end is an error.
\<close>

definition emit :: "nat \<Rightarrow> error + bytes \<Rightarrow> error + bytes" where
  "emit b r = (case r of Inl e \<Rightarrow> Inl e | Inr bs \<Rightarrow> Inr (char_of (b mod 256) # bs))"

fun a2b_base64 :: "nat \<Rightarrow> nat \<Rightarrow> nat \<Rightarrow> string \<Rightarrow> error + bytes" where
  "a2b_base64 quad_pos leftchar pads [] =
     (if quad_pos \<noteq> 0 then Inl BinasciiError else Inr [])"
| "a2b_base64 quad_pos leftchar pads (this_ch # cs) =
     (if this_ch = CHR ''=''
      then (if quad_pos \<ge> 2 \<and> quad_pos + (pads + 1) \<ge> 4 then Inr []
            else a2b_base64 quad_pos leftchar (if quad_pos \<ge> 2 then pads + 1 else pads) cs)
      else (case b64_value this_ch of
              None \<Rightarrow> a2b_base64 quad_pos leftchar pads cs
            | Some v \<Rightarrow>
                if quad_pos = 0 then a2b_base64 1 v 0 cs
                else if quad_pos = 1
                  then emit (leftchar * 4 + v div 16) (a2b_base64 2 (v mod 16) 0 cs)
                else if quad_pos = 2
                  then emit (leftchar * 16 + v div 4) (a2b_base64 3 (v mod 4) 0 cs)
                else emit (leftchar * 64 + v) (a2b_base64 0 0 0 cs)))"

text \<open>\<open>base64.b64decode\<close> of a \<open>str\<close>: the string has to be ASCII.\<close>

definition b64decode :: "string \<Rightarrow> error + bytes" where
  "b64decode s = (if list_all (\<lambda>c. (of_char c :: nat) < 128) s then a2b_base64 0 0 0 s
                  else Inl ValueError)"

text \<open>The FLAC picture block, \<open>mutagen.flac.Picture\<close>.\<close>

record picture =
  ptype :: nat
  mime :: utext
  desc :: utext
  width :: nat
  height :: nat
  depth :: nat
  colors :: nat
  pdata :: bytes

text \<open>
  \<open>Picture.write\<close>: the text is encoded, and \<open>struct.pack\<close> raises when a number
  does not fit 32 bits.
\<close>

definition picture_write :: "picture \<Rightarrow> error + bytes" where
  "picture_write p =
     (case utf8_encode (mime p) of
        Inl e \<Rightarrow> Inl e
      | Inr m \<Rightarrow>
          if \<not> (ptype p < 4294967296 \<and> length m < 4294967296) then Inl StructError
          else (case utf8_encode (desc p) of
                  Inl e \<Rightarrow> Inl e
                | Inr d \<Rightarrow>
                    if \<not> length d < 4294967296 then Inl StructError
                    else if \<not> (width p < 4294967296 \<and> height p < 4294967296
                                \<and> depth p < 4294967296 \<and> colors p < 4294967296
                                \<and> length (pdata p) < 4294967296)
                      then Inl StructError
                    else Inr (be32 (ptype p) @ be32 (length m) @ m
                              @ be32 (length d) @ d
                              @ be32 (width p) @ be32 (height p) @ be32 (depth p)
                              @ be32 (colors p) @ be32 (length (pdata p)) @ pdata p)))"

text \<open>
  \<open>data.read(size)\<close> on the strict file object mutagen wraps the bytes in: fewer
  bytes than asked for is an error. The result is what was read and what is left.
\<close>

definition read_n :: "nat \<Rightarrow> bytes \<Rightarrow> error + bytes \<times> bytes" where
  "read_n n bs = (if length bs < n then Inl (FlacError n (length bs))
                  else Inr (take n bs, drop n bs))"

text \<open>
  \<open>Picture(data)\<close>, that is \<open>Picture.load\<close>: six reads, of 8 bytes, the MIME type,
  4 bytes, the description, 20 bytes and the image. Bytes after the image are ignored.
\<close>

definition picture_load :: "bytes \<Rightarrow> error + picture" where
  "picture_load bs =
     (case read_n 8 bs of
        Inl e \<Rightarrow> Inl e
      | Inr (h1, r1) \<Rightarrow>
     (case read_n (be_nat (drop 4 h1)) r1 of
        Inl e \<Rightarrow> Inl e
      | Inr (m, r2) \<Rightarrow>
     (case read_n 4 r2 of
        Inl e \<Rightarrow> Inl e
      | Inr (h2, r3) \<Rightarrow>
     (case read_n (be_nat h2) r3 of
        Inl e \<Rightarrow> Inl e
      | Inr (d, r4) \<Rightarrow>
     (case read_n 20 r4 of
        Inl e \<Rightarrow> Inl e
      | Inr (h3, r5) \<Rightarrow>
     (case read_n (be_nat (drop 16 h3)) r5 of
        Inl e \<Rightarrow> Inl e
      | Inr (img, r6) \<Rightarrow>
          Inr \<lparr>ptype = be_nat (take 4 h1), mime = utf8_decode m, desc = utf8_decode d,
                width = be_nat (take 4 h3), height = be_nat (take 4 (drop 4 h3)),
                depth = be_nat (take 4 (drop 8 h3)), colors = be_nat (take 4 (drop 12 h3)),
                pdata = img\<rparr>))))))"

section \<open>The tags of an Opus file\<close>

text \<open>
  The Vorbis comments of an opened file, by key. Assigning a list of values replaces the
  values of the key; a key holds at least one value, so assigning the empty list leaves
  the key absent.
\<close>

type_synonym vcomment = "string \<Rightarrow> string list option"

definition setitem :: "vcomment \<Rightarrow> string \<Rightarrow> string list \<Rightarrow> vcomment" where
  "setitem tags key vals = (if vals = [] then tags(key := None) else tags(key \<mapsto> vals))"

definition delitem :: "vcomment \<Rightarrow> string \<Rightarrow> vcomment" where
  "delitem tags key = tags(key := None)"

section \<open>coverfix: the refresh cycle\<close>

datatype status = Skip | Refreshed | Fixed | Error error

text \<open>The loop of \<open>refresh_cover\<close> over the stored values.\<close>

fun refresh_loop :: "string list \<Rightarrow> string list \<Rightarrow> bool \<Rightarrow> error + (string list \<times> bool)" where
  "refresh_loop [] new_pictures modified = Inr (new_pictures, modified)"
| "refresh_loop (b64_data # rest) new_pictures modified =
     (case b64decode b64_data of
        Inl e \<Rightarrow> Inl e
      | Inr raw_data \<Rightarrow>
          (case picture_load raw_data of
             Inl e \<Rightarrow> Inl e
           | Inr pic \<Rightarrow>
               (let pic' = (if ptype pic \<noteq> 3
                            then pic\<lparr>ptype := 3, desc := text_of ''Front Cover''\<rparr>
                            else pic);
                    modified' = (if ptype pic \<noteq> 3 then True else modified)
                in case picture_write pic' of
                     Inl e \<Rightarrow> Inl e
                   | Inr block \<Rightarrow>
                       refresh_loop rest (new_pictures @ [b64encode block]) modified')))"

text \<open>
  \<open>refresh_cover\<close> on a file: \<open>None\<close> is a path that \<open>OggOpus\<close> cannot open;
  \<open>save1\<close> and \<open>save2\<close> say whether the first and the second \<open>audio.save()\<close>
  succeed. The result is the status and the tags written by each save that succeeded,
  in order. Every exception ends in the \<open>except\<close> branch.
\<close>

definition refresh_cover :: "vcomment option \<Rightarrow> bool \<Rightarrow> bool \<Rightarrow> status \<times> vcomment list" where
  "refresh_cover file save1 save2 =
     (case file of
        None \<Rightarrow> (Error OpenError, [])
      | Some tags \<Rightarrow>
          (case tags ''metadata_block_picture'' of
             None \<Rightarrow> (Skip, [])
           | Some b64_pictures \<Rightarrow>
               (case refresh_loop b64_pictures [] False of
                  Inl e \<Rightarrow> (Error e, [])
                | Inr (new_pictures, modified) \<Rightarrow>
                    (let tags1 = delitem tags ''metadata_block_picture'';
                         tags2 = setitem tags1 ''metadata_block_picture'' new_pictures
                     in if \<not> save1 then (Error IOError, [])
                        else if \<not> save2 then (Error IOError, [tags1])
                        else (if modified then Fixed else Refreshed, [tags1, tags2])))))"

text \<open>The pictures a list of stored values stands for.\<close>

definition stored_picture :: "string \<Rightarrow> error + picture" where
  "stored_picture b64_data =
     (case b64decode b64_data of Inl e \<Rightarrow> Inl e | Inr raw_data \<Rightarrow> picture_load raw_data)"

section \<open>covercp: extraction and embedding\<close>

text \<open>
  What \<open>mutagen.File\<close> returns, as far as \<open>extract_cover\<close> looks at it: the attribute
  \<open>pictures\<close> when the object has one, and the attribute \<open>tags\<close> when the object has one
  that is not \<open>None\<close>, with its keys in order. A tag value is an ID3 frame with a
  \<open>data\<close> attribute, a list of MP4 covers, or anything else (text).
\<close>

datatype tag_value = Frame bytes | Covers "bytes list" | Text "string list"

record audio =
  pictures :: "picture list option"
  tags :: "(string \<times> tag_value) list option"

definition startswith :: "string \<Rightarrow> string \<Rightarrow> bool" where
  "startswith s pre = (take (length pre) s = pre)"

text \<open>The loop over \<open>audio.tags.keys()\<close>: the first key with the prefix decides.\<close>

fun scan_apic :: "(string \<times> tag_value) list \<Rightarrow> string list \<Rightarrow> (error + bytes) option" where
  "scan_apic tgs [] = None"
| "scan_apic tgs (key # keys) =
     (if startswith key ''APIC:''
      then (case map_of tgs key of
              Some (Frame d) \<Rightarrow> Some (Inr d)
            | Some v \<Rightarrow> Some (Inl AttributeError)
            | None \<Rightarrow> Some (Inl ValueError))
      else scan_apic tgs keys)"

text \<open>The body of \<open>extract_cover\<close>, from the result of \<open>File(source_path)\<close>.\<close>

definition extract_body :: "audio option \<Rightarrow> error + bytes option" where
  "extract_body file =
     (case file of
        None \<Rightarrow> Inr None
      | Some audio \<Rightarrow>
          (case pictures audio of
             Some (p # ps) \<Rightarrow> Inr (Some (pdata p))
           | _ \<Rightarrow>
              (case tags audio of
                 None \<Rightarrow> Inr None
               | Some tgs \<Rightarrow>
                   (case scan_apic tgs (map fst tgs) of
                      Some (Inr d) \<Rightarrow> Inr (Some d)
                    | Some (Inl e) \<Rightarrow> Inl e
                    | None \<Rightarrow>
                        (case map_of tgs ''covr'' of
                           Some (Covers (c # cs)) \<Rightarrow> Inr (Some c)
                         | Some (Covers []) \<Rightarrow> Inr None
                         | Some (Text []) \<Rightarrow> Inr None
                         | Some (Text (s # ss)) \<Rightarrow> Inl TypeError
                         | Some (Frame d) \<Rightarrow> Inl TypeError
                         | None \<Rightarrow> Inr None)))))"

text \<open>\<open>extract_cover\<close>: \<open>Inl\<close> is an exception of \<open>File\<close>; every exception gives \<open>None\<close>.\<close>

definition extract_cover :: "error + audio option \<Rightarrow> bytes option" where
  "extract_cover opened =
     (case opened of
        Inl e \<Rightarrow> None
      | Inr file \<Rightarrow> (case extract_body file of Inl e \<Rightarrow> None | Inr r \<Rightarrow> r))"

text \<open>The picture \<open>embed_cover\<close> builds, with the MIME type guessed from the first bytes.\<close>

definition jpeg_magic :: bytes where
  "jpeg_magic = [CHR 0xFF, CHR 0xD8, CHR 0xFF]"

definition png_magic :: bytes where
  "png_magic = [CHR 0x89, CHR ''P'', CHR ''N'', CHR ''G'', CHR 0x0D, CHR 0x0A, CHR 0x1A, CHR 0x0A]"

definition make_picture :: "bytes \<Rightarrow> picture" where
  "make_picture image_data =
     \<lparr>ptype = 3,
      mime = (if take 3 image_data = jpeg_magic then text_of ''image/jpeg''
              else if take 8 image_data = png_magic then text_of ''image/png''
              else text_of ''image/jpeg''),
      desc = text_of ''Front Cover'',
      width = 0, height = 0, depth = 0, colors = 0,
      pdata = image_data\<rparr>"

text \<open>
  \<open>embed_cover\<close> on a destination: \<open>None\<close> is a path that \<open>OggOpus\<close> cannot open;
  \<open>save\<close> says whether \<open>audio.save()\<close> succeeds. The result is the return value
  and the tags written by the save when it succeeds. Every exception ends in the
  \<open>except\<close> branch.
\<close>

definition embed_cover :: "vcomment option \<Rightarrow> bytes \<Rightarrow> bool \<Rightarrow> bool \<times> vcomment list" where
  "embed_cover dest image_data save =
     (case dest of
        None \<Rightarrow> (False, [])
      | Some comments \<Rightarrow>
          (case picture_write (make_picture image_data) of
             Inl e \<Rightarrow> (False, [])
           | Inr block \<Rightarrow>
               if \<not> save then (False, [])
               else (True, [setitem comments ''metadata_block_picture'' [b64encode block]])))"

text \<open>\<open>below d p\<close>: the path \<open>p\<close> is \<open>d\<close> or lies under it.\<close>

definition below :: "path \<Rightarrow> path \<Rightarrow> bool" where
  "below d p = (is_abs p = is_abs d \<and> take (length (parts d)) (parts p) = parts d)"

section \<open>Runs that only add\<close>

text \<open>
  An invocation is fresh for a set of paths when it writes no file of the set: the
  output of a transcode, the destination of a cover copy or a cover refresh.
  \<open>os.makedirs\<close> with \<open>exist_ok\<close> leaves every existing path as it is.
\<close>

fun fresh :: "path set \<Rightarrow> event \<Rightarrow> bool" where
  "fresh P (MakeDirs p) = True"
| "fresh P (Encode c) = (enc_output c \<notin> P)"
| "fresh P (CoverCp s d) = (d \<notin> P)"
| "fresh P (CoverFix d) = (d \<notin> P)"

text \<open>
  \<open>extends w w'\<close>: the world \<open>w'\<close> comes from \<open>w\<close> by invocations that are fresh for
  the paths of \<open>w\<close>, and no path of \<open>w\<close> is gone.
\<close>

definition extends :: "world \<Rightarrow> world \<Rightarrow> bool" where
  "extends w w' = (present w \<subseteq> present w' \<and>
     (\<exists>evs. trace w' = trace w @ evs \<and> list_all (fresh (present w)) evs))"

text \<open>
  The destinations of a walk. For a cue sheet the walker takes as a single-file album,
  the output of each track; for every other file with a bitrate class that no cue sheet
  claims, its own \<open>.opus\<close> path below \<open>DEST_DIR\<close>. \<open>destinations_exist\<close> says
  that all of them are on disk.
\<close>

definition cue_dest_subdir :: "path \<Rightarrow> path \<Rightarrow> path" where
  "cue_dest_subdir source_dir cue_path =
     join_path DEST_DIR (parent (relative_to cue_path (parent source_dir)))"

definition standalone_dest :: "path \<Rightarrow> path \<Rightarrow> path" where
  "standalone_dest source_dir source_path =
     join_path DEST_DIR (with_suffix (relative_to source_path (parent source_dir)) ''.opus'')"

definition cue_done :: "env \<Rightarrow> path \<Rightarrow> world \<Rightarrow> path \<Rightarrow> bool" where
  "cue_done E source_dir w cue_path =
     (case cueparse E cue_path of
        None \<Rightarrow> True
      | Some cd \<Rightarrow>
          if single_file cd
          then list_all (\<lambda>t. exists w (joinpath (cue_dest_subdir source_dir cue_path) (out_name t)))
                 (tracks cd)
          else True)"

definition file_done :: "path set \<Rightarrow> path \<Rightarrow> world \<Rightarrow> path \<Rightarrow> bool" where
  "file_done cue_sources source_dir w source_path =
     (case get_bitrate (suffix source_path) of
        None \<Rightarrow> True
      | Some bitrate \<Rightarrow>
          if resolve source_path \<in> cue_sources then True
          else exists w (standalone_dest source_dir source_path))"

definition destinations_exist :: "env \<Rightarrow> path \<Rightarrow> entry list \<Rightarrow> world \<Rightarrow> bool" where
  "destinations_exist E source_dir es w =
     list_all (\<lambda>(root_dir, fs).
         list_all (\<lambda>filename.
             (if endswith (lower filename) ''.cue''
              then cue_done E source_dir w (child root_dir filename) else True)
             \<and> file_done (first_pass E w (rglob_cue source_dir es) {}) source_dir w
                   (child root_dir filename)) fs)
       (walk source_dir es)"

fun is_makedirs :: "event \<Rightarrow> bool" where
  "is_makedirs (MakeDirs p) = True"
| "is_makedirs e = False"

text \<open>\<open>quiet w w'\<close>: from \<open>w\<close> to \<open>w'\<close> nothing but \<open>os.makedirs\<close> was invoked.\<close>

definition quiet :: "world \<Rightarrow> world \<Rightarrow> bool" where
  "quiet w w' = (present w \<subseteq> present w' \<and>
     (\<exists>evs. trace w' = trace w @ evs \<and> list_all is_makedirs evs))"

section \<open>A small library\<close>

text \<open>
  The directory \<open>/music\<close> with a cue sheet and the album file \<open>album.flac\<close> it
  refers to. The cue sheet, whatever its file name, describes a single-file album of two
  tracks. \<open>music_env\<close> takes the name of the cue sheet and the encoder's exit status.
\<close>

definition album_cue :: cue_data where
  "album_cue =
     \<lparr>single_file = True,
      tracks = [\<lparr>number = Val ''01'', title = Val ''Intro'', artist = Absent,
                 start = Val 0, duration = Val 90\<rparr>,
                \<lparr>number = Val ''02'', title = Val ''Outro'', artist = Absent,
                 start = Val 90, duration = Absent\<rparr>],
      files = [''album.flac''], album = ''Album'', date = [], genre = [], disc = []\<rparr>"

definition music_dir :: path where
  "music_dir = Path True [''music'']"

definition music_env :: "string \<Rightarrow> (encode_call \<Rightarrow> bool) \<Rightarrow> env" where
  "music_env cue_name ok =
     \<lparr>cueparse = (\<lambda>p. if p = child music_dir cue_name then Some album_cue else None),
      encode_ok = (\<lambda>w c. ok c),
      leaves_output = (\<lambda>w c. False)\<rparr>"

definition music_tree :: "string \<Rightarrow> entry list" where
  "music_tree cue_name = [File cue_name, File ''album.flac'']"

definition music_world :: "string \<Rightarrow> world" where
  "music_world cue_name =
     \<lparr>present = {Path True [], music_dir, child music_dir cue_name,
                  child music_dir ''album.flac''},
      trace = []\<rparr>"

section \<open>Two stored covers\<close>

text \<open>
  The tags of an Opus file that holds two picture blocks: a back cover (role 4) and a
  front cover (role 3) with the description \<open>cover.jpg\<close>.
\<close>

definition back_cover :: picture where
  "back_cover = \<lparr>ptype = 4, mime = text_of ''image/png'', desc = text_of ''Back'',
                  width = 0, height = 0, depth = 0, colors = 0, pdata = png_magic\<rparr>"

definition front_cover :: picture where
  "front_cover = \<lparr>ptype = 3, mime = text_of ''image/jpeg'', desc = text_of ''cover.jpg'',
                   width = 0, height = 0, depth = 0, colors = 0, pdata = jpeg_magic\<rparr>"

definition stored_of :: "picture \<Rightarrow> string" where
  "stored_of p = (case picture_write p of Inr block \<Rightarrow> b64encode block | Inl e \<Rightarrow> [])"

definition two_cover_tags :: vcomment where
  "two_cover_tags =
     Map.empty(''metadata_block_picture'' \<mapsto> [stored_of back_cover, stored_of front_cover])"

text \<open>The tags of a file whose second picture value is not a picture block.\<close>

definition broken_cover_tags :: vcomment where
  "broken_cover_tags =
     Map.empty(''metadata_block_picture'' \<mapsto> [stored_of back_cover, ''!''])"

text \<open>
  The tags of a file that holds one front cover (role 3) whose description is the single
  byte \<open>FF\<close>, which is not UTF-8: the block is written out byte by byte.
\<close>

definition latin1_cover_block :: bytes where
  "latin1_cover_block = be32 3 @ be32 0 @ be32 1 @ [CHR 0xFF]
                        @ be32 0 @ be32 0 @ be32 0 @ be32 0 @ be32 0"

definition latin1_cover_tags :: vcomment where
  "latin1_cover_tags = Map.empty(''metadata_block_picture'' \<mapsto> [b64encode latin1_cover_block])"

section \<open>Properties of the string helpers\<close>

lemma not_upper_lower: "\<not> is_upper (lower_char c)"
  by (auto simp add: lower_char_def is_upper_def Let_def)

lemma lower_char_idem: "lower_char (lower_char c) = lower_char c"
  using not_upper_lower[of c] by (simp add: lower_char_def[of "lower_char c"])

lemma lower_idem: "lower (lower s) = lower s"
  by (simp add: lower_def lower_char_idem)


lemma strip_decomp: "\<exists>l r. s = l @ strip s @ r \<and> (\<forall>c\<in>set l. is_space c) \<and> (\<forall>c\<in>set r. is_space c)"
proof -
  let ?l = "takeWhile is_space s"
  let ?m = "dropWhile is_space s"
  let ?r = "rev (takeWhile is_space (rev ?m))"
  have "rev ?m = takeWhile is_space (rev ?m) @ dropWhile is_space (rev ?m)" by simp
  then have "?m = strip s @ ?r" unfolding strip_def
    by (metis rev_append rev_rev_ident)
  then have "s = ?l @ strip s @ ?r" by (metis takeWhile_dropWhile_id)
  moreover have "\<forall>c\<in>set ?l. is_space c" by (auto dest: set_takeWhileD)
  moreover have "\<forall>c\<in>set ?r. is_space c" by (auto dest: set_takeWhileD)
  ultimately show ?thesis by blast
qed

lemma strip_last: "strip s \<noteq> [] \<Longrightarrow> \<not> is_space (last (strip s))"
  unfolding strip_def by (simp add: last_rev hd_dropWhile)

lemma strip_hd: 
  assumes "strip s \<noteq> []" shows "\<not> is_space (hd (strip s))"
proof -
  let ?m = "dropWhile is_space s"
  have "rev ?m = takeWhile is_space (rev ?m) @ dropWhile is_space (rev ?m)" by simp
  then have m: "?m = strip s @ rev (takeWhile is_space (rev ?m))" unfolding strip_def
    by (metis rev_append rev_rev_ident)
  have "?m \<noteq> []"
  proof
    assume "?m = []"
    then have "strip s = []" by (simp only: strip_def rev.simps dropWhile.simps)
    with assms show False by simp
  qed
  then have "\<not> is_space (hd ?m)" by (rule hd_dropWhile)
  moreover from m assms have "hd ?m = hd (strip s)" by (metis hd_append2)
  ultimately show ?thesis by simp
qed

lemma re_sub_illegal_nth:
  "length (re_sub_illegal s) = length s \<and>
   (\<forall>i<length s. re_sub_illegal s ! i = (if s ! i \<in> illegal_chars then CHR ''_'' else s ! i))"
  by (simp add: re_sub_illegal_def)

lemma underscore_legal: "CHR ''_'' \<notin> illegal_chars"
  by (simp add: illegal_chars_def)

lemma re_sub_legal: "c \<in> set (re_sub_illegal s) \<Longrightarrow> c \<notin> illegal_chars"
  by (auto simp: re_sub_illegal_def underscore_legal)

lemma sanitize_legal: "c \<in> set (sanitize_filename s) \<Longrightarrow> c \<notin> illegal_chars"
proof -
  assume c: "c \<in> set (sanitize_filename s)"
  obtain l r where "re_sub_illegal s = l @ strip (re_sub_illegal s) @ r"
    using strip_decomp[of "re_sub_illegal s"] by blast
  then have "set (sanitize_filename s) \<subseteq> set (re_sub_illegal s)"
    unfolding sanitize_filename_def by (metis Un_upper1 Un_upper2 set_append subset_trans)
  with c show ?thesis using re_sub_legal by blast
qed


section \<open>Bitrate classes\<close>

text \<open>
  C10: the bitrate class of an extension is the bitrate class of its lowercase form:
  \<open>get_bitrate\<close> lowers its argument before the two set lookups. The extension
  \<open>.FLAC\<close> is lossless (96k) and \<open>.Mp3\<close> is lossy (192k).
\<close>

theorem get_bitrate_case_insensitive:
  "get_bitrate e = get_bitrate (lower e)
   \<and> get_bitrate ''.FLAC'' = Some ''96k''
   \<and> get_bitrate ''.Mp3'' = Some ''192k''"
proof -
  have "get_bitrate e = get_bitrate (lower e)"
    by (simp add: get_bitrate_def lower_idem)
  moreover have "get_bitrate ''.FLAC'' = Some ''96k''" by code_simp
  moreover have "get_bitrate ''.Mp3'' = Some ''192k''" by code_simp
  ultimately show ?thesis by simp
qed

section \<open>Track file names\<close>

text \<open>
  C6, as the code has it: the output name of a track is its number as the parsed cue
  sheet gives it, with no padding (\<open>00\<close> for a track without a number, \<open>None\<close> for a
  \<open>null\<close>), then \<open>" - "\<close>, then the sanitized title (the title is \<open>Track\<close> and the
  number for a track without a title, \<open>None\<close> for a \<open>null\<close>), then \<open>.opus\<close>. The
  sanitized title is the title with every character of \<open>< > : " / \ | ? *\<close> replaced
  by \<open>_\<close>, without the whitespace at its two ends: what is cut off on either side is
  whitespace only, no illegal character is left, and the result neither starts nor ends
  with whitespace. Track \<open>03\<close> with the title \<open>My Song: Pt. 1/2\<close> is named
  \<open>03 - My Song_ Pt. 1_2.opus\<close>.
\<close>

theorem out_name_sanitized:
  "out_name t
     = (let num = (case number t of Absent \<Rightarrow> ''00'' | Null \<Rightarrow> ''None'' | Val n \<Rightarrow> n);
            ttl = (case title t of Absent \<Rightarrow> ''Track '' @ num | Null \<Rightarrow> ''None'' | Val s \<Rightarrow> s)
        in num @ '' - '' @ sanitize_filename ttl @ ''.opus'')
   \<and> (\<exists>l r. map (\<lambda>c. if c \<in> illegal_chars then CHR ''_'' else c) s = l @ sanitize_filename s @ r
          \<and> (\<forall>c\<in>set l. is_space c) \<and> (\<forall>c\<in>set r. is_space c))
   \<and> (\<forall>c\<in>set (sanitize_filename s). c \<notin> illegal_chars)
   \<and> (sanitize_filename s \<noteq> [] \<longrightarrow>
        \<not> is_space (hd (sanitize_filename s)) \<and> \<not> is_space (last (sanitize_filename s)))
   \<and> out_name \<lparr>number = Val ''03'', title = Val ''My Song: Pt. 1/2'', artist = a,
                 start = b, duration = d\<rparr> = ''03 - My Song_ Pt. 1_2.opus''"
proof -
  have 1: "out_name t
     = (let num = (case number t of Absent \<Rightarrow> ''00'' | Null \<Rightarrow> ''None'' | Val n \<Rightarrow> n);
            ttl = (case title t of Absent \<Rightarrow> ''Track '' @ num | Null \<Rightarrow> ''None'' | Val s \<Rightarrow> s)
        in num @ '' - '' @ sanitize_filename ttl @ ''.opus'')"
    by (simp add: out_name_def track_num_def track_title_def dict_get_def py_str_def Let_def
        split: field.splits)
  have 2: "\<exists>l r. map (\<lambda>c. if c \<in> illegal_chars then CHR ''_'' else c) s = l @ sanitize_filename s @ r
          \<and> (\<forall>c\<in>set l. is_space c) \<and> (\<forall>c\<in>set r. is_space c)"
    using strip_decomp[of "re_sub_illegal s"]
    by (simp add: sanitize_filename_def re_sub_illegal_def)
  have 3: "\<forall>c\<in>set (sanitize_filename s). c \<notin> illegal_chars"
    using sanitize_legal by blast
  have 4: "sanitize_filename s \<noteq> [] \<longrightarrow>
        \<not> is_space (hd (sanitize_filename s)) \<and> \<not> is_space (last (sanitize_filename s))"
    using strip_hd strip_last by (simp add: sanitize_filename_def)
  have 5: "out_name \<lparr>number = Val ''03'', title = Val ''My Song: Pt. 1/2'', artist = a,
                 start = b, duration = d\<rparr> = ''03 - My Song_ Pt. 1_2.opus''"
    by (simp add: out_name_def track_num_def track_title_def dict_get_def py_str_def
        sanitize_filename_def re_sub_illegal_def illegal_chars_def strip_def is_space_def)
  from 1 2 3 4 5 show ?thesis by blast
qed

theorem out_name_sanitized_witness:
  "sanitize_filename ''  a/b? '' = ''a_b_''
   \<and> \<not> is_space (hd (sanitize_filename ''  a/b? ''))
   \<and> \<not> is_space (last (sanitize_filename ''  a/b? ''))
   \<and> CHR ''/'' \<notin> set (sanitize_filename ''  a/b? '')
   \<and> out_name \<lparr>number = Val ''07'', title = Absent, artist = Absent, start = Absent,
                 duration = Absent\<rparr> = ''07 - Track 07.opus''
   \<and> out_name \<lparr>number = Absent, title = Null, artist = Absent, start = Absent,
                 duration = Absent\<rparr> = ''00 - None.opus''"
  using out_name_sanitized [of "\<lparr>number = Val ''07'', title = Absent, artist = Absent,
      start = Absent, duration = Absent\<rparr>" "''  a/b? ''"]
    out_name_sanitized [of "\<lparr>number = Absent, title = Null, artist = Absent,
      start = Absent, duration = Absent\<rparr>" "''  a/b? ''"]
  by (simp add: sanitize_filename_def re_sub_illegal_def illegal_chars_def strip_def
      is_space_def)

text \<open>
  The claim as stated fails on a track whose number has one digit: the cue sheet gives
  \<open>3\<close> and the title \<open>x\<close>, the file is named \<open>3 - x.opus\<close>, and with the number
  padded it would be \<open>03 - x.opus\<close>.
\<close>

theorem out_name_not_padded_counterexample:
  "out_name \<lparr>number = Val ''3'', title = Val ''x'', artist = Absent, start = Absent,
              duration = Absent\<rparr> = ''3 - x.opus''
   \<and> spec_out_name ''3'' ''x'' = ''03 - x.opus''
   \<and> sanitize_filename ''x'' = ''x''"
  by (simp add: out_name_def track_num_def track_title_def dict_get_def py_str_def
      spec_out_name_def zero_padded_def sanitize_filename_def re_sub_illegal_def
      illegal_chars_def strip_def is_space_def)

section \<open>Cue resolution\<close>







section \<open>Every write goes to a path that did not exist\<close>

lemma fresh_mono: "P \<subseteq> Q \<Longrightarrow> fresh Q e \<Longrightarrow> fresh P e"
  by (cases e) auto

lemma extends_refl: "extends w w"
  by (simp add: extends_def)

lemma extends_trans:
  assumes "extends w1 w2" and "extends w2 w3"
  shows "extends w1 w3"
proof -
  from assms(1) obtain e1 where 1: "present w1 \<subseteq> present w2" "trace w2 = trace w1 @ e1"
    "list_all (fresh (present w1)) e1" by (auto simp: extends_def)
  from assms(2) obtain e2 where 2: "present w2 \<subseteq> present w3" "trace w3 = trace w2 @ e2"
    "list_all (fresh (present w2)) e2" by (auto simp: extends_def)
  from 1(1) 2(3) have "list_all (fresh (present w1)) e2"
    by (auto simp: list_all_iff intro: fresh_mono)
  with 1 2 have "trace w3 = trace w1 @ (e1 @ e2) \<and> list_all (fresh (present w1)) (e1 @ e2)"
    by simp
  moreover from 1(1) 2(1) have "present w1 \<subseteq> present w3" by blast
  ultimately show ?thesis unfolding extends_def by blast
qed

lemma extends_makedirs: "extends w (makedirs p w)"
  by (simp add: extends_def makedirs_def)

text \<open>One transcode with its cover handling, on an output that does not exist.\<close>

lemma extends_encode_step:
  assumes "\<not> exists w out" and "enc_output c = out"
  shows "extends w (case run_opusencode E c w of
                      (ok, w1) \<Rightarrow> if ok then run_coverfix out (run_covercp s out w1) else w1)"
  using assms
  by (auto simp: extends_def run_opusencode_def run_coverfix_def run_covercp_def exists_def Let_def)

lemma extends_process_tracks:
  "extends w (process_tracks E cd src br dest n ts w)"
proof (induction ts arbitrary: w)
  case Nil
  show ?case by (simp add: extends_refl)
next
  case (Cons t ts)
  let ?out = "joinpath dest (out_name t)"
  let ?c = "track_call cd src br ?out n t"
  show ?case
  proof (cases "exists w ?out")
    case True
    then show ?thesis using Cons.IH by simp
  next
    case False
    have out: "enc_output ?c = ?out" by (simp add: track_call_def)
    let ?w2 = "case run_opusencode E ?c w of
                 (ok, w1) \<Rightarrow> if ok then run_coverfix ?out (run_covercp src ?out w1) else w1"
    have step: "extends w ?w2"
      using False out by (rule extends_encode_step)
    have eq: "process_tracks E cd src br dest n (t # ts) w
        = process_tracks E cd src br dest n ts ?w2"
      using False by (simp add: Let_def split: prod.splits)
    show ?thesis unfolding eq by (rule extends_trans[OF step Cons.IH])
  qed
qed

lemma process_cue_cases:
  "snd (process_cue E cue_path dest w) = w \<and> \<not> fst (process_cue E cue_path dest w)
   \<or> (\<exists>cd src br. snd (process_cue E cue_path dest w)
          = process_tracks E cd src br dest (length (tracks cd)) (tracks cd) (makedirs dest w)
          \<and> fst (process_cue E cue_path dest w))"
  by (auto simp: process_cue_def split: option.splits)

lemma extends_process_cue: "extends w (snd (process_cue E cue_path dest w))"
proof -
  have "extends w (process_tracks E cd src br dest n ts (makedirs dest w))" for cd src br n ts
    using extends_trans[OF extends_makedirs extends_process_tracks] .
  then show ?thesis
    using process_cue_cases[of E cue_path dest w] extends_refl[of w] by auto
qed

lemma extends_cue_loop: "extends w (cue_loop E sd r fs w)"
proof (induction fs arbitrary: w)
  case Nil
  show ?case by (simp add: extends_refl)
next
  case (Cons f fs)
  have "extends w (cue_loop E sd r fs (snd (process_cue E p d w)))" for p d
    using extends_trans[OF extends_process_cue Cons.IH] .
  then show ?case
    using Cons.IH by (auto simp: Let_def split: option.splits)
qed

lemma extends_file_step:
  assumes "\<not> exists w out" and "enc_output c = out"
  shows "extends w (case run_opusencode E c (makedirs p w) of
                      (ok, w1) \<Rightarrow> if ok then run_coverfix out (run_covercp s out w1) else w1)"
  using assms
  by (auto simp: extends_def run_opusencode_def run_coverfix_def run_covercp_def exists_def
      makedirs_def Let_def)

lemma extends_file_loop: "extends w (file_loop E cs sd r fs w)"
proof (induction fs arbitrary: w)
  case Nil
  show ?case by (simp add: extends_refl)
next
  case (Cons f fs)
  let ?src = "child r f"
  let ?dest = "join_path DEST_DIR (with_suffix (relative_to ?src (parent sd)) ''.opus'')"
  show ?case
  proof (cases "get_bitrate (suffix ?src)")
    case None
    then show ?thesis using Cons.IH by simp
  next
    case (Some br)
    let ?c = "standalone_call ?src ?dest br"
    have out: "enc_output ?c = ?dest" by (simp add: standalone_call_def)
    show ?thesis
    proof (cases "resolve ?src \<in> cs \<or> exists w ?dest")
      case True
      then show ?thesis using Some Cons.IH by (auto simp: Let_def)
    next
      case False
      let ?w2 = "case run_opusencode E ?c (makedirs (parent ?dest) w) of
                   (ok, w1) \<Rightarrow> if ok then run_coverfix ?dest (run_covercp ?src ?dest w1) else w1"
      from False have nex: "\<not> exists w ?dest" by simp
      have step: "extends w ?w2"
        using nex out by (rule extends_file_step)
      have eq: "file_loop E cs sd r (f # fs) w = file_loop E cs sd r fs ?w2"
        using False Some by (simp add: Let_def split: prod.splits)
      show ?thesis unfolding eq by (rule extends_trans[OF step Cons.IH])
    qed
  qed
qed

lemma extends_second_pass: "extends w (second_pass E cs sd ds w)"
proof (induction ds arbitrary: w)
  case Nil
  show ?case by (simp add: extends_refl)
next
  case (Cons d ds)
  obtain r fs where d: "d = (r, fs)" by (cases d)
  have step: "extends w (file_loop E cs sd r fs (cue_loop E sd r fs w))"
    using extends_trans[OF extends_cue_loop extends_file_loop] .
  show ?case unfolding d second_pass.simps by (rule extends_trans[OF step Cons.IH])
qed

lemma extends_convert_directory: "extends w (convert_directory E sd tree w)"
  by (simp add: convert_directory_def Let_def extends_refl extends_second_pass
      del: walk.simps split: option.splits)

section \<open>A walk whose destinations exist\<close>

lemma quiet_refl: "quiet w w"
  by (simp add: quiet_def)

lemma quiet_trans:
  assumes "quiet w1 w2" and "quiet w2 w3"
  shows "quiet w1 w3"
proof -
  from assms(1) obtain e1 where 1: "present w1 \<subseteq> present w2" "trace w2 = trace w1 @ e1"
    "list_all is_makedirs e1" by (auto simp: quiet_def)
  from assms(2) obtain e2 where 2: "present w2 \<subseteq> present w3" "trace w3 = trace w2 @ e2"
    "list_all is_makedirs e2" by (auto simp: quiet_def)
  from 1 2 have "trace w3 = trace w1 @ (e1 @ e2) \<and> list_all is_makedirs (e1 @ e2)"
    by simp
  moreover from 1(1) 2(1) have "present w1 \<subseteq> present w3" by blast
  ultimately show ?thesis unfolding quiet_def by blast
qed

lemma quiet_makedirs: "quiet w (makedirs p w)"
  by (simp add: quiet_def makedirs_def)

lemma process_tracks_done:
  "list_all (\<lambda>t. exists w (joinpath dest (out_name t))) ts \<Longrightarrow>
   process_tracks E cd src br dest n ts w = w"
  by (induction ts) (simp_all add: Let_def)

lemma exists_mono: "present w \<subseteq> present w' \<Longrightarrow> exists w p \<Longrightarrow> exists w' p"
  by (auto simp: exists_def)

lemma cue_done_mono: "present w \<subseteq> present w' \<Longrightarrow> cue_done E sd w p \<Longrightarrow> cue_done E sd w' p"
  by (auto simp: cue_done_def list_all_iff exists_def split: option.splits if_splits)

lemma file_done_mono: "present w \<subseteq> present w' \<Longrightarrow> file_done cs sd w p \<Longrightarrow> file_done cs sd w' p"
  by (auto simp: file_done_def exists_def split: option.splits if_splits)

lemma process_cue_done:
  assumes "cueparse E cue_path = Some cd" and "single_file cd"
    and "cue_done E sd w cue_path"
  shows "quiet w (snd (process_cue E cue_path (cue_dest_subdir sd cue_path) w))"
proof -
  let ?dest = "cue_dest_subdir sd cue_path"
  from assms have "list_all (\<lambda>t. exists w (joinpath ?dest (out_name t))) (tracks cd)"
    by (simp add: cue_done_def)
  then have "list_all (\<lambda>t. exists (makedirs ?dest w) (joinpath ?dest (out_name t))) (tracks cd)"
    by (auto simp: list_all_iff exists_def makedirs_def)
  then have "process_tracks E cd src br ?dest n (tracks cd) (makedirs ?dest w) = makedirs ?dest w"
    for src br n by (rule process_tracks_done)
  then show ?thesis
    using assms(1,2) quiet_refl[of w] quiet_makedirs[of w ?dest]
    by (auto simp: process_cue_def split: option.splits)
qed

lemma cue_loop_done:
  "list_all (\<lambda>f. endswith (lower f) ''.cue'' \<longrightarrow> cue_done E sd w (child r f)) fs \<Longrightarrow>
   quiet w (cue_loop E sd r fs w)"
proof (induction fs arbitrary: w)
  case Nil
  show ?case by (simp add: quiet_refl)
next
  case (Cons f fs)
  from Cons.prems have rest: "list_all (\<lambda>f. endswith (lower f) ''.cue'' \<longrightarrow> cue_done E sd w (child r f)) fs"
    by simp
  show ?case
  proof (cases "endswith (lower f) ''.cue'' \<and> (\<exists>cd. cueparse E (child r f) = Some cd \<and> single_file cd)")
    case False
    then have "cue_loop E sd r (f # fs) w = cue_loop E sd r fs w"
      by (auto simp: Let_def split: option.splits)
    then show ?thesis using Cons.IH[OF rest] by simp
  next
    case True
    then obtain cd where cd: "cueparse E (child r f) = Some cd" "single_file cd" 
      and cue: "endswith (lower f) ''.cue''" by blast
    let ?w1 = "snd (process_cue E (child r f) (cue_dest_subdir sd (child r f)) w)"
    from Cons.prems cue have "cue_done E sd w (child r f)" by simp
    then have q: "quiet w ?w1" using cd by (intro process_cue_done) auto
    then have sub: "present w \<subseteq> present ?w1" by (simp add: quiet_def)
    have "list_all (\<lambda>f. endswith (lower f) ''.cue'' \<longrightarrow> cue_done E sd ?w1 (child r f)) fs"
      using rest cue_done_mono[OF sub] by (auto simp: list_all_iff)
    then have q2: "quiet ?w1 (cue_loop E sd r fs ?w1)" by (rule Cons.IH)
    have eq: "cue_loop E sd r (f # fs) w = cue_loop E sd r fs ?w1"
      using cd cue by (simp add: Let_def cue_dest_subdir_def)
    show ?thesis unfolding eq by (rule quiet_trans[OF q q2])
  qed
qed

lemma file_loop_done:
  "list_all (\<lambda>f. file_done cs sd w (child r f)) fs \<Longrightarrow> file_loop E cs sd r fs w = w"
  by (induction fs) (auto simp: Let_def file_done_def standalone_dest_def split: option.splits if_splits)

lemma second_pass_done:
  "list_all (\<lambda>(r, fs). list_all (\<lambda>f. (if endswith (lower f) ''.cue'' then cue_done E sd w (child r f) else True)
       \<and> file_done cs sd w (child r f)) fs) ds \<Longrightarrow>
   quiet w (second_pass E cs sd ds w)"
proof (induction ds arbitrary: w)
  case Nil
  show ?case by (simp add: quiet_refl)
next
  case (Cons d ds)
  obtain r fs where d: "d = (r, fs)" by (cases d)
  let ?w1 = "cue_loop E sd r fs w"
  from Cons.prems d have 
    c: "list_all (\<lambda>f. endswith (lower f) ''.cue'' \<longrightarrow> cue_done E sd w (child r f)) fs"
    and f: "list_all (\<lambda>f. file_done cs sd w (child r f)) fs"
    by (auto simp: list_all_iff)
  from c have q: "quiet w ?w1" by (rule cue_loop_done)
  then have sub: "present w \<subseteq> present ?w1" by (simp add: quiet_def)
  from f have "list_all (\<lambda>f. file_done cs sd ?w1 (child r f)) fs"
    using file_done_mono[OF sub] by (auto simp: list_all_iff)
  then have fl: "file_loop E cs sd r fs ?w1 = ?w1" by (rule file_loop_done)
  have "list_all (\<lambda>(r, fs). list_all (\<lambda>f. (if endswith (lower f) ''.cue'' then cue_done E sd ?w1 (child r f) else True)
       \<and> file_done cs sd ?w1 (child r f)) fs) ds"
    using Cons.prems cue_done_mono[OF sub] file_done_mono[OF sub]
    by (auto simp: list_all_iff)
  then have q2: "quiet ?w1 (second_pass E cs sd ds ?w1)" by (rule Cons.IH)
  show ?case unfolding d second_pass.simps fl by (rule quiet_trans[OF q q2])
qed

lemma convert_directory_done:
  "destinations_exist E sd es w \<Longrightarrow> quiet w (convert_directory E sd (Some es) w)"
  unfolding destinations_exist_def convert_directory_def
  by (simp add: Let_def second_pass_done del: walk.simps)

section \<open>The splitter\<close>



text \<open>
  C9: when the transcode of a track fails, the step of that track adds the transcode
  invocation to the trace and nothing else, neither a cover copy nor a cover refresh,
  and the loop goes on with the tracks that follow, from the world the failed
  transcode left.
\<close>

theorem failed_transcode_continues:
  assumes "\<not> exists w (joinpath dest (out_name t))"
    and "\<not> encode_ok E w (track_call cd src br (joinpath dest (out_name t)) n t)"
  shows "process_tracks E cd src br dest n (t # ts) w
           = process_tracks E cd src br dest n ts
               (snd (run_opusencode E (track_call cd src br (joinpath dest (out_name t)) n t) w))
         \<and> trace (snd (run_opusencode E (track_call cd src br (joinpath dest (out_name t)) n t) w))
           = trace w @ [Encode (track_call cd src br (joinpath dest (out_name t)) n t)]
         \<and> (\<exists>evs. trace (process_tracks E cd src br dest n (t # ts) w)
               = trace w @ Encode (track_call cd src br (joinpath dest (out_name t)) n t) # evs
             \<and> trace (process_tracks E cd src br dest n ts
                  (snd (run_opusencode E (track_call cd src br (joinpath dest (out_name t)) n t) w)))
               = trace (snd (run_opusencode E (track_call cd src br (joinpath dest (out_name t)) n t) w)) @ evs)"
proof -
  let ?c = "track_call cd src br (joinpath dest (out_name t)) n t"
  let ?w1 = "snd (run_opusencode E ?c w)"
  from assms(2) have fail: "fst (run_opusencode E ?c w) = False"
    by (simp add: run_opusencode_def Let_def)
  obtain ok w1 where r: "run_opusencode E ?c w = (ok, w1)" by (cases "run_opusencode E ?c w")
  with fail have ok: "\<not> ok" by simp
  have eq: "process_tracks E cd src br dest n (t # ts) w = process_tracks E cd src br dest n ts ?w1"
    using assms(1) r ok by (simp add: Let_def)
  have tr: "trace ?w1 = trace w @ [Encode ?c]"
    by (simp add: run_opusencode_def Let_def)
  have "extends ?w1 (process_tracks E cd src br dest n ts ?w1)"
    by (rule extends_process_tracks)
  then obtain evs where evs: "trace (process_tracks E cd src br dest n ts ?w1) = trace ?w1 @ evs"
    by (auto simp: extends_def)
  then have "trace (process_tracks E cd src br dest n (t # ts) w) = trace w @ Encode ?c # evs"
    using eq tr by simp
  with eq tr evs show ?thesis by blast
qed

theorem failed_transcode_continues_witness:
  "trace (process_tracks (music_env ''album.cue'' (\<lambda>c. enc_start c \<noteq> Some 0)) album_cue
            (child music_dir ''album.flac'') ''96k'' (Path True [''opus'']) 2
            (tracks album_cue) (music_world ''album.cue''))
   = [Encode (track_call album_cue (child music_dir ''album.flac'') ''96k''
                (Path True [''opus'', ''01 - Intro.opus'']) 2 (hd (tracks album_cue))),
      Encode (track_call album_cue (child music_dir ''album.flac'') ''96k''
                (Path True [''opus'', ''02 - Outro.opus'']) 2 (last (tracks album_cue))),
      CoverCp (child music_dir ''album.flac'') (Path True [''opus'', ''02 - Outro.opus'']),
      CoverFix (Path True [''opus'', ''02 - Outro.opus''])]"
proof -
  have e: "trace (process_tracks (music_env ''album.cue'' (\<lambda>c. enc_start c \<noteq> Some 0)) album_cue
            (child music_dir ''album.flac'') ''96k'' (Path True [''opus'']) 2
            (tracks album_cue) (music_world ''album.cue''))
   = [Encode (track_call album_cue (child music_dir ''album.flac'') ''96k''
                (Path True [''opus'', ''01 - Intro.opus'']) 2 (hd (tracks album_cue))),
      Encode (track_call album_cue (child music_dir ''album.flac'') ''96k''
                (Path True [''opus'', ''02 - Outro.opus'']) 2 (last (tracks album_cue))),
      CoverCp (child music_dir ''album.flac'') (Path True [''opus'', ''02 - Outro.opus'']),
      CoverFix (Path True [''opus'', ''02 - Outro.opus''])]"
    by code_simp
  have h1: "\<not> exists (music_world ''album.cue'')
              (joinpath (Path True [''opus'']) (out_name (hd (tracks album_cue))))"
    by code_simp
  have h2: "\<not> encode_ok (music_env ''album.cue'' (\<lambda>c. enc_start c \<noteq> Some 0)) (music_world ''album.cue'')
      (track_call album_cue (child music_dir ''album.flac'') ''96k''
         (joinpath (Path True [''opus'']) (out_name (hd (tracks album_cue)))) 2 (hd (tracks album_cue)))"
    by code_simp
  from failed_transcode_continues [OF h1 h2, of "tl (tracks album_cue)"] e
  show ?thesis by blast
qed

section \<open>The walker\<close>

lemma extends_explicit:
  assumes "extends w w'"
  shows "\<exists>evs. trace w' = trace w @ evs
      \<and> (\<forall>c. Encode c \<in> set evs \<longrightarrow> enc_output c \<notin> present w)
      \<and> (\<forall>s d. CoverCp s d \<in> set evs \<longrightarrow> d \<notin> present w)
      \<and> (\<forall>d. CoverFix d \<in> set evs \<longrightarrow> d \<notin> present w)"
proof -
  from assms obtain evs where evs: "trace w' = trace w @ evs" "\<forall>e\<in>set evs. fresh (present w) e"
    by (auto simp: extends_def list_all_iff)
  have "\<forall>c. Encode c \<in> set evs \<longrightarrow> enc_output c \<notin> present w"
    using evs(2) by fastforce
  moreover have "\<forall>s d. CoverCp s d \<in> set evs \<longrightarrow> d \<notin> present w"
    using evs(2) by fastforce
  moreover have "\<forall>d. CoverFix d \<in> set evs \<longrightarrow> d \<notin> present w"
    using evs(2) by fastforce
  ultimately show ?thesis using evs(1) by blast
qed

lemma is_makedirs_iff: "is_makedirs e = (\<exists>p. e = MakeDirs p)"
  by (cases e) auto

text \<open>
  C8: a destination that exists is the mark that it was produced. Whatever a walk
  invokes on a file (a transcode, a cover copy, a cover refresh), the file did not exist
  when the walk began; the same holds for the tracks of one cue sheet. So a walk that
  finds all its destinations on disk writes none of them: it invokes nothing but
  \<open>os.makedirs\<close>, which leaves an existing directory as it is.
\<close>

theorem existing_destination_skipped:
  "(\<exists>evs. trace (convert_directory E source_dir tree w) = trace w @ evs
      \<and> (\<forall>c. Encode c \<in> set evs \<longrightarrow> enc_output c \<notin> present w)
      \<and> (\<forall>s d. CoverCp s d \<in> set evs \<longrightarrow> d \<notin> present w)
      \<and> (\<forall>d. CoverFix d \<in> set evs \<longrightarrow> d \<notin> present w))
   \<and> (\<exists>evs. trace (snd (process_cue E cue_path dest_subdir w)) = trace w @ evs
      \<and> (\<forall>c. Encode c \<in> set evs \<longrightarrow> enc_output c \<notin> present w)
      \<and> (\<forall>s d. CoverCp s d \<in> set evs \<longrightarrow> d \<notin> present w)
      \<and> (\<forall>d. CoverFix d \<in> set evs \<longrightarrow> d \<notin> present w))
   \<and> (destinations_exist E source_dir es w \<longrightarrow>
        (\<exists>evs. trace (convert_directory E source_dir (Some es) w) = trace w @ evs
           \<and> (\<forall>e\<in>set evs. \<exists>p. e = MakeDirs p)))"
proof -
  have a: "\<exists>evs. trace (convert_directory E source_dir tree w) = trace w @ evs
      \<and> (\<forall>c. Encode c \<in> set evs \<longrightarrow> enc_output c \<notin> present w)
      \<and> (\<forall>s d. CoverCp s d \<in> set evs \<longrightarrow> d \<notin> present w)
      \<and> (\<forall>d. CoverFix d \<in> set evs \<longrightarrow> d \<notin> present w)"
    using extends_convert_directory by (rule extends_explicit)
  have b: "\<exists>evs. trace (snd (process_cue E cue_path dest_subdir w)) = trace w @ evs
      \<and> (\<forall>c. Encode c \<in> set evs \<longrightarrow> enc_output c \<notin> present w)
      \<and> (\<forall>s d. CoverCp s d \<in> set evs \<longrightarrow> d \<notin> present w)
      \<and> (\<forall>d. CoverFix d \<in> set evs \<longrightarrow> d \<notin> present w)"
    using extends_process_cue by (rule extends_explicit)
  have c: "destinations_exist E source_dir es w \<longrightarrow>
        (\<exists>evs. trace (convert_directory E source_dir (Some es) w) = trace w @ evs
           \<and> (\<forall>e\<in>set evs. \<exists>p. e = MakeDirs p))"
  proof
    assume "destinations_exist E source_dir es w"
    then have "quiet w (convert_directory E source_dir (Some es) w)"
      by (rule convert_directory_done)
    then show "\<exists>evs. trace (convert_directory E source_dir (Some es) w) = trace w @ evs
           \<and> (\<forall>e\<in>set evs. \<exists>p. e = MakeDirs p)"
      by (auto simp: quiet_def list_all_iff is_makedirs_iff)
  qed
  from a b c show ?thesis by blast
qed

theorem existing_destination_skipped_witness:
  "destinations_exist (music_env ''album.cue'' (\<lambda>c. True)) music_dir (music_tree ''album.cue'')
      (convert_directory (music_env ''album.cue'' (\<lambda>c. True)) music_dir
         (Some (music_tree ''album.cue'')) (music_world ''album.cue''))
   \<and> trace (convert_directory (music_env ''album.cue'' (\<lambda>c. True)) music_dir
         (Some (music_tree ''album.cue''))
         (convert_directory (music_env ''album.cue'' (\<lambda>c. True)) music_dir
            (Some (music_tree ''album.cue'')) (music_world ''album.cue'')))
     = trace (convert_directory (music_env ''album.cue'' (\<lambda>c. True)) music_dir
         (Some (music_tree ''album.cue'')) (music_world ''album.cue''))
       @ [MakeDirs (Path True [''home'', ''alice'', ''opus'', ''music''])]"
proof -
  have d: "destinations_exist (music_env ''album.cue'' (\<lambda>c. True)) music_dir (music_tree ''album.cue'')
      (convert_directory (music_env ''album.cue'' (\<lambda>c. True)) music_dir
         (Some (music_tree ''album.cue'')) (music_world ''album.cue''))"
    by code_simp
  have t: "trace (convert_directory (music_env ''album.cue'' (\<lambda>c. True)) music_dir
         (Some (music_tree ''album.cue''))
         (convert_directory (music_env ''album.cue'' (\<lambda>c. True)) music_dir
            (Some (music_tree ''album.cue'')) (music_world ''album.cue'')))
     = trace (convert_directory (music_env ''album.cue'' (\<lambda>c. True)) music_dir
         (Some (music_tree ''album.cue'')) (music_world ''album.cue''))
       @ [MakeDirs (Path True [''home'', ''alice'', ''opus'', ''music''])]"
    by code_simp
  from d t existing_destination_skipped [of "music_env ''album.cue'' (\<lambda>c. True)" music_dir
      "Some (music_tree ''album.cue'')"
      "convert_directory (music_env ''album.cue'' (\<lambda>c. True)) music_dir
         (Some (music_tree ''album.cue'')) (music_world ''album.cue'')"]
  show ?thesis by blast
qed

text \<open>
  The guard of the second pass: a file of the claimed set is never the input of a
  standalone transcode.
\<close>

lemma file_loop_claimed:
  "resolve (child r f) \<in> cs \<Longrightarrow> file_loop E cs sd r (f # fs) w = file_loop E cs sd r fs w"
  by (simp add: Let_def split: option.splits)

text \<open>
  C7, at a cue sheet named \<open>ALBUM.CUE\<close>: the cue sheet parses as a single-file album
  and its reference resolves to \<open>/music/album.flac\<close>, but the first pass looks for
  \<open>*.cue\<close> and does not find it, so the claimed set is empty. The second pass lowers
  the name, splits the album, and then transcodes \<open>album.flac\<close> as a whole as well.
\<close>

theorem upper_case_cue_not_claimed:
  "cueparse (music_env ''ALBUM.CUE'' (\<lambda>c. True)) (child music_dir ''ALBUM.CUE'') = Some album_cue
   \<and> single_file album_cue
   \<and> find_audio_for_cue (exists (music_world ''ALBUM.CUE'')) music_dir ''album.flac''
       = Some (child music_dir ''album.flac'')
   \<and> first_pass (music_env ''ALBUM.CUE'' (\<lambda>c. True)) (music_world ''ALBUM.CUE'')
         (rglob_cue music_dir (music_tree ''ALBUM.CUE'')) {} = {}
   \<and> Encode (track_call album_cue (child music_dir ''album.flac'') ''96k''
         (Path True [''home'', ''alice'', ''opus'', ''music'', ''01 - Intro.opus'']) 2
         (hd (tracks album_cue)))
       \<in> set (trace (convert_directory (music_env ''ALBUM.CUE'' (\<lambda>c. True)) music_dir
                  (Some (music_tree ''ALBUM.CUE'')) (music_world ''ALBUM.CUE'')))
   \<and> Encode (standalone_call (child music_dir ''album.flac'')
         (Path True [''home'', ''alice'', ''opus'', ''music'', ''album.opus'']) ''96k'')
       \<in> set (trace (convert_directory (music_env ''ALBUM.CUE'' (\<lambda>c. True)) music_dir
                  (Some (music_tree ''ALBUM.CUE'')) (music_world ''ALBUM.CUE'')))
   \<and> Encode (standalone_call (child music_dir ''album.flac'')
         (Path True [''home'', ''alice'', ''opus'', ''music'', ''album.opus'']) ''96k'')
       \<notin> set (trace (convert_directory (music_env ''album.cue'' (\<lambda>c. True)) music_dir
                  (Some (music_tree ''album.cue'')) (music_world ''album.cue'')))"
  by code_simp

section \<open>UTF-8\<close>

lemma of_char_of_nat: "n < 256 \<Longrightarrow> (of_char (char_of n) :: nat) = n"
  by simp

lemma utf8_decode_1:
  assumes "c < 128"
  shows "utf8_decode (utf8_cp c @ rest) = c # utf8_decode rest"
  using assms by (simp add: utf8_cp_def Let_def)

lemma utf8_decode_2:
  assumes "128 \<le> c" "c < 2048"
  shows "utf8_decode (utf8_cp c @ rest) = c # utf8_decode rest"
proof -
  from assms have d: "c div 64 < 32" "2 \<le> c div 64" by simp_all
  have m: "c mod 64 < 64" by simp
  have b0: "(of_char (char_of (192 + c div 64)) :: nat) = 192 + c div 64"
    using d by (intro of_char_of_nat) linarith
  have b1: "(of_char (char_of (128 + c mod 64)) :: nat) = 128 + c mod 64"
    using m by (intro of_char_of_nat) linarith
  have "utf8_decode (char_of (192 + c div 64) # char_of (128 + c mod 64) # rest)
      = (c div 64 * 64 + c mod 64) # utf8_decode rest"
    using d m unfolding utf8_decode.simps(2)[of "char_of (192 + c div 64)"] Let_def b0
    by (simp add: b1 is_cont_def del: of_char_of)
  then show ?thesis using assms by (simp add: utf8_cp_def)
qed


lemma digits_64_3:
  fixes c :: nat
  shows "c div 4096 * 4096 + c div 64 mod 64 * 64 + c mod 64 = c"
proof -
  define q where "q = c div 64"
  have e: "c div 4096 = q div 64"
    using div_mult2_eq[of c 64 64] by (simp add: q_def)
  have expand: "(a * 64 + b) * 64 = a * 4096 + b * 64" for a b :: nat by simp
  have "q div 64 * 4096 + q mod 64 * 64 + c mod 64
      = (q div 64 * 64 + q mod 64) * 64 + c mod 64" by (simp only: expand)
  also have "\<dots> = q * 64 + c mod 64" by (simp only: div_mult_mod_eq)
  also have "\<dots> = c" by (simp add: q_def)
  finally show ?thesis unfolding e q_def .
qed

lemma digits_64_4:
  fixes c :: nat
  shows "c div 262144 * 262144 + c div 4096 mod 64 * 4096 + c div 64 mod 64 * 64 + c mod 64 = c"
proof -
  define q where "q = c div 4096"
  have e: "c div 262144 = q div 64"
    using div_mult2_eq[of c 4096 64] by (simp add: q_def)
  have expand: "(a * 64 + b) * 4096 = a * 262144 + b * 4096" for a b :: nat by simp
  have "q div 64 * 262144 + q mod 64 * 4096 + c div 64 mod 64 * 64 + c mod 64
      = (q div 64 * 64 + q mod 64) * 4096 + c div 64 mod 64 * 64 + c mod 64"
    by (simp only: expand)
  also have "\<dots> = q * 4096 + c div 64 mod 64 * 64 + c mod 64" by (simp only: div_mult_mod_eq)
  also have "\<dots> = c" unfolding q_def by (rule digits_64_3)
  finally show ?thesis unfolding e q_def .
qed

lemma second_3_low: fixes c :: nat assumes "2048 \<le> c" "c < 4096" shows "32 \<le> c div 64 mod 64"
proof -
  from assms have "c div 64 < 64" "32 \<le> c div 64" by simp_all
  then show ?thesis by simp
qed

lemma second_3_high: fixes c :: nat assumes "53248 \<le> c" "c < 55296" shows "c div 64 mod 64 < 32"
proof -
  define q where "q = c div 64"
  from assms have q: "832 \<le> q" "q < 864" by (simp_all add: q_def)
  define y where "y = q - 832"
  from q have y: "q = 832 + y" "y < 32" by (simp_all add: y_def)
  have "(y + 64 * 13) mod 64 = y mod 64" by (rule mod_mult_self2)
  then have "q mod 64 = y" using y by (simp add: add.commute)
  then show ?thesis using y by (simp add: q_def)
qed

lemma second_4_low: fixes c :: nat assumes "65536 \<le> c" "c < 262144" shows "16 \<le> c div 4096 mod 64"
proof -
  from assms have "c div 4096 < 64" "16 \<le> c div 4096" by simp_all
  then show ?thesis by simp
qed

lemma second_4_high: fixes c :: nat assumes "1048576 \<le> c" "c < 1114112" shows "c div 4096 mod 64 < 16"
proof -
  define q where "q = c div 4096"
  from assms have q: "256 \<le> q" "q < 272" by (simp_all add: q_def)
  define y where "y = q - 256"
  from q have y: "q = 256 + y" "y < 16" by (simp_all add: y_def)
  have "(y + 64 * 4) mod 64 = y mod 64" by (rule mod_mult_self2)
  then have "q mod 64 = y" using y by (simp add: add.commute)
  then show ?thesis using y by (simp add: q_def)
qed


lemma utf8_decode_3:
  assumes "2048 \<le> c" "c < 65536" "encodable c"
  shows "utf8_decode (utf8_cp c @ rest) = c # utf8_decode rest"
proof -
  define l where "l = c div 4096"
  define x where "x = c div 64 mod 64"
  define y where "y = c mod 64"
  from assms have l: "l < 16" by (simp add: l_def)
  have x: "x < 64" and y: "y < 64" by (simp_all add: x_def y_def)
  have low: "l = 0 \<Longrightarrow> 32 \<le> x"
  proof -
    assume "l = 0"
    then have "c < 4096" by (simp add: l_def)
    with assms(1) show "32 \<le> x" unfolding x_def by (intro second_3_low)
  qed
  have high: "l = 13 \<Longrightarrow> x < 32"
  proof -
    assume l13: "l = 13"
    have "c div 4096 * 4096 \<le> c" by simp
    with l13 have ge: "53248 \<le> c" by (simp add: l_def)
    have "c < (c div 4096 + 1) * 4096" using div_less_iff_less_mult[of 4096 c "c div 4096 + 1"] by simp
    with l13 have "c < 57344" by (simp add: l_def)
    with assms(3) have "c < 55296" by (simp add: encodable_def)
    with ge show "x < 32" unfolding x_def by (intro second_3_high)
  qed
  have b0: "(of_char (char_of (224 + l)) :: nat) = 224 + l"
    using l by (intro of_char_of_nat) linarith
  have b1: "(of_char (char_of (128 + x)) :: nat) = 128 + x"
    using x by (intro of_char_of_nat) linarith
  have b2: "(of_char (char_of (128 + y)) :: nat) = 128 + y"
    using y by (intro of_char_of_nat) linarith
  have ok: "second_ok (224 + l) (128 + x)"
    using l x low high by (auto simp: second_ok_def is_cont_def)
  have "utf8_decode (char_of (224 + l) # char_of (128 + x) # char_of (128 + y) # rest)
      = (l * 4096 + x * 64 + y) # utf8_decode rest"
    using l x y ok unfolding utf8_decode.simps(2)[of "char_of (224 + l)"] Let_def b0
    by (simp add: b1 b2 is_cont_def del: of_char_of)
  moreover have "l * 4096 + x * 64 + y = c"
    unfolding l_def x_def y_def by (rule digits_64_3)
  ultimately show ?thesis using assms by (simp add: utf8_cp_def l_def x_def y_def)
qed

lemma utf8_decode_4:
  assumes "65536 \<le> c" "c < 1114112"
  shows "utf8_decode (utf8_cp c @ rest) = c # utf8_decode rest"
proof -
  define l where "l = c div 262144"
  define x where "x = c div 4096 mod 64"
  define y where "y = c div 64 mod 64"
  define z where "z = c mod 64"
  from assms have l: "l < 5" by (simp add: l_def)
  have x: "x < 64" and y: "y < 64" and z: "z < 64" by (simp_all add: x_def y_def z_def)
  have low: "l = 0 \<Longrightarrow> 16 \<le> x"
  proof -
    assume "l = 0"
    then have "c < 262144" by (simp add: l_def)
    with assms(1) show "16 \<le> x" unfolding x_def by (intro second_4_low)
  qed
  have high: "l = 4 \<Longrightarrow> x < 16"
  proof -
    assume l4: "l = 4"
    have "c div 262144 * 262144 \<le> c" by simp
    with l4 have "1048576 \<le> c" by (simp add: l_def)
    with assms(2) show "x < 16" unfolding x_def by (intro second_4_high)
  qed
  have b0: "(of_char (char_of (240 + l)) :: nat) = 240 + l"
    using l by (intro of_char_of_nat) linarith
  have b1: "(of_char (char_of (128 + x)) :: nat) = 128 + x"
    using x by (intro of_char_of_nat) linarith
  have b2: "(of_char (char_of (128 + y)) :: nat) = 128 + y"
    using y by (intro of_char_of_nat) linarith
  have b3: "(of_char (char_of (128 + z)) :: nat) = 128 + z"
    using z by (intro of_char_of_nat) linarith
  have ok: "second_ok (240 + l) (128 + x)"
    using l x low high by (auto simp: second_ok_def is_cont_def)
  have "utf8_decode (char_of (240 + l) # char_of (128 + x) # char_of (128 + y)
          # char_of (128 + z) # rest)
      = (l * 262144 + x * 4096 + y * 64 + z) # utf8_decode rest"
    using l x y z ok unfolding utf8_decode.simps(2)[of "char_of (240 + l)"] Let_def b0
    by (simp add: b1 b2 b3 is_cont_def del: of_char_of)
  moreover have "l * 262144 + x * 4096 + y * 64 + z = c"
    unfolding l_def x_def y_def z_def by (rule digits_64_4)
  ultimately show ?thesis using assms by (simp add: utf8_cp_def l_def x_def y_def z_def)
qed

lemma utf8_decode_cp:
  assumes "encodable c"
  shows "utf8_decode (utf8_cp c @ rest) = c # utf8_decode rest"
proof -
  from assms have "c < 1114112" by (auto simp: encodable_def)
  then consider "c < 128" | "128 \<le> c" "c < 2048" | "2048 \<le> c" "c < 65536"
    | "65536 \<le> c" "c < 1114112" by linarith
  then show ?thesis
    using assms by cases (auto intro: utf8_decode_1 utf8_decode_2 utf8_decode_3 utf8_decode_4)
qed

lemma utf8_decode_concat:
  "list_all encodable t \<Longrightarrow> utf8_decode (concat (map utf8_cp t)) = t"
proof (induction t)
  case Nil
  show ?case by simp
next
  case (Cons c t)
  then have "utf8_decode (utf8_cp c @ concat (map utf8_cp t)) = c # utf8_decode (concat (map utf8_cp t))"
    by (intro utf8_decode_cp) simp
  with Cons show ?case by simp
qed

lemma utf8_roundtrip: "utf8_encode t = Inr bs \<Longrightarrow> utf8_decode bs = t"
  by (auto simp: utf8_encode_def utf8_decode_concat split: if_splits)

lemma utf8_cp_ascii: "(of_char c :: nat) < 128 \<Longrightarrow> utf8_cp (of_char c) = [c]"
  by (simp add: utf8_cp_def)

lemma utf8_encode_ascii:
  "list_all (\<lambda>c. (of_char c :: nat) < 128) s \<Longrightarrow> utf8_encode (text_of s) = Inr s"
proof -
  assume a: "list_all (\<lambda>c. (of_char c :: nat) < 128) s"
  then have "list_all encodable (text_of s)"
    by (induction s) (auto simp: text_of_def encodable_def)
  moreover from a have "concat (map utf8_cp (text_of s)) = s"
    by (induction s) (auto simp: text_of_def utf8_cp_ascii)
  ultimately show ?thesis by (simp add: utf8_encode_def)
qed

section \<open>Picture blocks\<close>

lemma length_be32: "length (be32 n) = 4"
  by (simp add: be32_def)

lemma digits_256:
  fixes n :: nat
  assumes "n < 4294967296"
  shows "((n div 16777216 mod 256 * 256 + n div 65536 mod 256) * 256 + n div 256 mod 256) * 256
           + n mod 256 = n"
proof -
  define m1 where "m1 = n div 256"
  define m2 where "m2 = m1 div 256"
  define m3 where "m3 = m2 div 256"
  have e2: "n div 65536 = m2"
    using div_mult2_eq[of n 256 256] by (simp add: m1_def m2_def)
  have e3: "n div 16777216 = m3"
    using div_mult2_eq[of n 65536 256] e2 by (simp add: m3_def)
  from assms have "m3 < 256" unfolding e3[symmetric] by simp
  then have a: "m3 mod 256 = m3" by simp
  have b: "m3 * 256 + m2 mod 256 = m2" unfolding m3_def by simp
  have c: "m2 * 256 + m1 mod 256 = m1" unfolding m2_def by simp
  have d: "m1 * 256 + n mod 256 = n" unfolding m1_def by simp
  show ?thesis unfolding e2 e3 a m1_def[symmetric] b c d ..
qed


lemma be_nat_be32: "n < 4294967296 \<Longrightarrow> be_nat (be32 n) = n"
proof -
  assume n: "n < 4294967296"
  have "be_nat (be32 n) = ((n div 16777216 mod 256 * 256 + n div 65536 mod 256) * 256
      + n div 256 mod 256) * 256 + n mod 256"
    unfolding be32_def be_nat_def
    by (simp only: foldl.simps of_char_of mod_mod_trivial mult_zero_left add_0)
  then show ?thesis using digits_256[OF n] by (rule trans)
qed

lemma be_nat_4_bound:
  assumes "length bs = 4"
  shows "be_nat bs < 4294967296"
proof -
  from assms obtain a r1 where 1: "bs = a # r1" "length r1 = 3" by (cases bs) auto
  then obtain b r2 where 2: "r1 = b # r2" "length r2 = 2" by (cases r1) auto
  then obtain c r3 where 3: "r2 = c # r3" "length r3 = 1" by (cases r2) auto
  then obtain d where 4: "r3 = [d]" by (cases r3) auto
  have "(of_char a :: nat) \<le> 255" "(of_char b :: nat) \<le> 255"
    "(of_char c :: nat) \<le> 255" "(of_char d :: nat) \<le> 255"
    using nat_of_char_less_256[of a] nat_of_char_less_256[of b]
      nat_of_char_less_256[of c] nat_of_char_less_256[of d] by linarith+
  then show ?thesis unfolding 1 2 3 4 be_nat_def by simp
qed

lemma be_nat_bound: "be_nat bs < 256 ^ length bs"
proof (induction bs rule: rev_induct)
  case Nil
  show ?case by (simp add: be_nat_def)
next
  case (snoc c bs)
  have step: "be_nat (bs @ [c]) = be_nat bs * 256 + of_char c"
    by (simp add: be_nat_def)
  from snoc.IH have "be_nat bs + 1 \<le> 256 ^ length bs" by simp
  then have "(be_nat bs + 1) * 256 \<le> 256 ^ length bs * 256"
    by (rule mult_le_mono1)
  then have A: "be_nat bs * 256 + 256 \<le> 256 ^ length bs * 256" by simp
  have "be_nat bs * 256 + of_char c < 256 ^ length bs * 256"
    using A nat_of_char_less_256[of c] by linarith
  then show ?case unfolding step by simp
qed

lemma be_nat_take4: "be_nat (take 4 xs) < 4294967296"
proof -
  have "be_nat (take 4 xs) < 256 ^ length (take 4 xs)" by (rule be_nat_bound)
  also have "(256::nat) ^ length (take 4 xs) \<le> 256 ^ 4"
    by (rule power_increasing) simp_all
  finally show ?thesis by simp
qed

lemma read_n_exact: "length a = n \<Longrightarrow> read_n n (a @ r) = Inr (a, r)"
  by (simp add: read_n_def)

lemma picture_load_layout:
  assumes b: "t < 4294967296" "length m < 4294967296" "length d < 4294967296"
    "w < 4294967296" "h < 4294967296" "dp < 4294967296" "c < 4294967296"
    "length img < 4294967296"
  shows "picture_load (be32 t @ be32 (length m) @ m @ be32 (length d) @ d
                       @ be32 w @ be32 h @ be32 dp @ be32 c @ be32 (length img) @ img @ rest)
         = Inr \<lparr>ptype = t, mime = utf8_decode m, desc = utf8_decode d,
                width = w, height = h, depth = dp, colors = c, pdata = img\<rparr>"
proof -
  define h1 where "h1 = be32 t @ be32 (length m)"
  define h2 where "h2 = be32 (length d)"
  define h3 where "h3 = be32 w @ be32 h @ be32 dp @ be32 c @ be32 (length img)"
  have bs: "be32 t @ be32 (length m) @ m @ be32 (length d) @ d
            @ be32 w @ be32 h @ be32 dp @ be32 c @ be32 (length img) @ img @ rest
          = h1 @ m @ h2 @ d @ h3 @ img @ rest"
    by (simp add: h1_def h2_def h3_def)
  have l1: "length h1 = 8" and l2: "length h2 = 4" and l3: "length h3 = 20"
    by (simp_all add: h1_def h2_def h3_def length_be32)
  have f1: "be_nat (take 4 h1) = t" "be_nat (drop 4 h1) = length m"
    by (simp_all add: h1_def length_be32 be_nat_be32 b)
  have f2: "be_nat h2 = length d" by (simp add: h2_def be_nat_be32 b)
  have f3: "be_nat (take 4 h3) = w" "be_nat (take 4 (drop 4 h3)) = h"
    "be_nat (take 4 (drop 8 h3)) = dp" "be_nat (take 4 (drop 12 h3)) = c"
    "be_nat (drop 16 h3) = length img"
    by (simp_all add: h3_def length_be32 be_nat_be32 b)
  have r1: "read_n 8 (h1 @ m @ h2 @ d @ h3 @ img @ rest) = Inr (h1, m @ h2 @ d @ h3 @ img @ rest)"
    using l1 by (rule read_n_exact)
  have r2: "read_n (length m) (m @ h2 @ d @ h3 @ img @ rest) = Inr (m, h2 @ d @ h3 @ img @ rest)"
    by (rule read_n_exact) simp
  have r3: "read_n 4 (h2 @ d @ h3 @ img @ rest) = Inr (h2, d @ h3 @ img @ rest)"
    using l2 by (rule read_n_exact)
  have r4: "read_n (length d) (d @ h3 @ img @ rest) = Inr (d, h3 @ img @ rest)"
    by (rule read_n_exact) simp
  have r5: "read_n 20 (h3 @ img @ rest) = Inr (h3, img @ rest)"
    using l3 by (rule read_n_exact)
  have r6: "read_n (length img) (img @ rest) = Inr (img, rest)"
    by (rule read_n_exact) simp
  show ?thesis
    unfolding bs picture_load_def
    by (simp only: r1 f1 r2 r3 f2 r4 r5 f3 r6 sum.case prod.case)
qed

lemma picture_load_write:
  assumes "picture_write p = Inr bs"
  shows "picture_load bs = Inr p"
proof -
  from assms obtain m where m: "utf8_encode (mime p) = Inr m"
    by (cases "utf8_encode (mime p)") (simp_all add: picture_write_def)
  from assms m obtain d where d: "utf8_encode (desc p) = Inr d"
    by (cases "utf8_encode (desc p)") (simp_all add: picture_write_def split: if_splits)
  from assms m d have b: "ptype p < 4294967296" "length m < 4294967296"
    "length d < 4294967296" "width p < 4294967296" "height p < 4294967296"
    "depth p < 4294967296" "colors p < 4294967296" "length (pdata p) < 4294967296"
    by (simp_all add: picture_write_def split: if_splits)
  from assms m d b have bs: "bs = be32 (ptype p) @ be32 (length m) @ m @ be32 (length d) @ d
      @ be32 (width p) @ be32 (height p) @ be32 (depth p) @ be32 (colors p)
      @ be32 (length (pdata p)) @ pdata p @ []"
    by (simp add: picture_write_def)
  show ?thesis
    unfolding bs using utf8_roundtrip[OF m] utf8_roundtrip[OF d]
    by (simp only: picture_load_layout[OF b]) simp
qed

lemma picture_write_ascii:
  assumes "list_all (\<lambda>c. (of_char c :: nat) < 128) m"
    and "list_all (\<lambda>c. (of_char c :: nat) < 128) d"
    and "t < 4294967296" "length m < 4294967296" "length d < 4294967296"
    and "length img < 4294967296"
  shows "picture_write \<lparr>ptype = t, mime = text_of m, desc = text_of d,
                         width = 0, height = 0, depth = 0, colors = 0, pdata = img\<rparr>
         = Inr (be32 t @ be32 (length m) @ m @ be32 (length d) @ d
                @ be32 0 @ be32 0 @ be32 0 @ be32 0 @ be32 (length img) @ img)"
  using assms(3-) by (simp add: picture_write_def utf8_encode_ascii[OF assms(1)]
      utf8_encode_ascii[OF assms(2)])

section \<open>Base64\<close>

lemma b64_value_char: "i < 64 \<Longrightarrow> b64_value (b64_char i) = Some i"
  by (auto simp: b64_value_def b64_char_def Let_def)

lemma b64_char_not_pad: "i < 64 \<Longrightarrow> b64_char i \<noteq> CHR ''=''"
  by (auto simp: b64_char_def char_of_eq_iff take_bit_eq_mod)

lemma b64_char_ascii: "i < 64 \<Longrightarrow> (of_char (b64_char i) :: nat) < 128"
  by (auto simp: b64_char_def)


lemma a2b_step0:
  "i < 64 \<Longrightarrow> a2b_base64 0 l p (b64_char i # cs) = a2b_base64 1 i 0 cs"
  by (simp add: b64_value_char b64_char_not_pad)

lemma a2b_step1:
  "i < 64 \<Longrightarrow> a2b_base64 1 l p (b64_char i # cs)
     = emit (l * 4 + i div 16) (a2b_base64 2 (i mod 16) 0 cs)"
  by (simp add: b64_value_char b64_char_not_pad)

lemma a2b_step2:
  "i < 64 \<Longrightarrow> a2b_base64 2 l p (b64_char i # cs)
     = emit (l * 16 + i div 4) (a2b_base64 3 (i mod 4) 0 cs)"
  by (simp add: b64_value_char b64_char_not_pad)

lemma a2b_step3:
  "i < 64 \<Longrightarrow> a2b_base64 3 l p (b64_char i # cs)
     = emit (l * 64 + i) (a2b_base64 0 0 0 cs)"
  by (simp add: b64_value_char b64_char_not_pad)

lemma a2b_pad2: "a2b_base64 2 l 0 (CHR ''='' # CHR ''='' # cs) = Inr []"
  by simp

lemma a2b_pad3: "a2b_base64 3 l 0 (CHR ''='' # cs) = Inr []"
  by simp

lemma emit_byte: "emit (of_char a) (Inr bs) = Inr (a # bs)"
  by (simp add: emit_def)

lemma sextets:
  fixes x y z :: nat
  assumes "x < 256" "y < 256" "z < 256"
  shows "x div 4 < 64" "x mod 4 * 16 + y div 16 < 64" "y mod 16 * 4 + z div 64 < 64"
    "z mod 64 < 64" "x mod 4 * 16 < 64" "y mod 16 * 4 < 64"
proof -
  from assms have a: "x div 4 < 64" "y div 16 < 16" "z div 64 < 4" by simp_all
  have b: "x mod 4 < 4" "y mod 16 < 16" by simp_all
  show "x div 4 < 64" by (rule a)
  show "x mod 4 * 16 + y div 16 < 64" using a b by linarith
  show "y mod 16 * 4 + z div 64 < 64" using a b by linarith
  show "z mod 64 < 64" by simp
  show "x mod 4 * 16 < 64" using b by linarith
  show "y mod 16 * 4 < 64" using b by linarith
qed

lemma regroup:
  fixes x y z :: nat
  assumes "y < 256" "z < 256"
  shows "x div 4 * 4 + (x mod 4 * 16 + y div 16) div 16 = x"
    and "(x mod 4 * 16 + y div 16) mod 16 = y div 16"
    and "y div 16 * 16 + (y mod 16 * 4 + z div 64) div 4 = y"
    and "(y mod 16 * 4 + z div 64) mod 4 = z div 64"
    and "z div 64 * 64 + z mod 64 = z"
    and "x div 4 * 4 + (x mod 4 * 16) div 16 = x"
    and "(x mod 4 * 16) mod 16 = 0"
    and "y div 16 * 16 + (y mod 16 * 4) div 4 = y"
proof -
  from assms have a: "y div 16 < 16" "z div 64 < 4" by simp_all
  show "x div 4 * 4 + (x mod 4 * 16 + y div 16) div 16 = x" using a by simp
  show "(x mod 4 * 16 + y div 16) mod 16 = y div 16" using a by simp
  show "y div 16 * 16 + (y mod 16 * 4 + z div 64) div 4 = y" using a by simp
  show "(y mod 16 * 4 + z div 64) mod 4 = z div 64" using a by simp
  show "z div 64 * 64 + z mod 64 = z" by simp
  show "x div 4 * 4 + (x mod 4 * 16) div 16 = x" by simp
  show "(x mod 4 * 16) mod 16 = 0" by simp
  show "y div 16 * 16 + (y mod 16 * 4) div 4 = y" by simp
qed


lemma a2b_b64encode: "a2b_base64 0 0 0 (b64encode bs) = Inr bs"
proof (induction bs rule: b64encode.induct)
  case 1
  show ?case by simp
next
  case (2 a)
  define x where "x = (of_char a :: nat)"
  have x: "x < 256" by (simp add: x_def)
  note s = sextets[OF x x x]
  have "a2b_base64 0 0 0 (b64encode [a])
      = emit (x div 4 * 4 + (x mod 4 * 16) div 16) (Inr [])"
    unfolding b64encode.simps Let_def x_def[symmetric]
    by (simp only: a2b_step0[OF s(1)] a2b_step1[OF s(5)] regroup(7) a2b_pad2)
  then have "a2b_base64 0 0 0 (b64encode [a]) = emit x (Inr [])"
    by (simp only: regroup(6)[OF x x])
  then show ?case by (simp only: x_def emit_byte)
next
  case (3 a b)
  define x where "x = (of_char a :: nat)"
  define y where "y = (of_char b :: nat)"
  have x: "x < 256" and y: "y < 256" by (simp_all add: x_def y_def)
  note s = sextets[OF x y y]
  have m: "(y mod 16 * 4) mod 4 = 0" by simp
  have "a2b_base64 0 0 0 (b64encode [a, b])
      = emit (x div 4 * 4 + (x mod 4 * 16 + y div 16) div 16)
          (emit (y div 16 * 16 + (y mod 16 * 4) div 4) (Inr []))"
    unfolding b64encode.simps Let_def x_def[symmetric] y_def[symmetric]
    by (simp only: a2b_step0[OF s(1)] a2b_step1[OF s(2)] a2b_step2[OF s(6)]
        regroup(2)[OF y y] m a2b_pad3)
  then have "a2b_base64 0 0 0 (b64encode [a, b]) = emit x (emit y (Inr []))"
    by (simp only: regroup(1)[OF y y] regroup(8)[OF y y])
  then show ?case by (simp only: x_def y_def emit_byte)
next
  case (4 a b c rest)
  define x where "x = (of_char a :: nat)"
  define y where "y = (of_char b :: nat)"
  define z where "z = (of_char c :: nat)"
  have x: "x < 256" and y: "y < 256" and z: "z < 256" by (simp_all add: x_def y_def z_def)
  note s = sextets[OF x y z]
  have "a2b_base64 0 0 0 (b64encode (a # b # c # rest))
      = emit (x div 4 * 4 + (x mod 4 * 16 + y div 16) div 16)
          (emit (y div 16 * 16 + (y mod 16 * 4 + z div 64) div 4)
             (emit (z div 64 * 64 + z mod 64) (a2b_base64 0 0 0 (b64encode rest))))"
    unfolding b64encode.simps Let_def x_def[symmetric] y_def[symmetric] z_def[symmetric]
    by (simp only: append.simps a2b_step0[OF s(1)] a2b_step1[OF s(2)] a2b_step2[OF s(3)]
        a2b_step3[OF s(4)] regroup(2)[OF y z] regroup(4)[OF y z])
  then have "a2b_base64 0 0 0 (b64encode (a # b # c # rest))
      = emit x (emit y (emit z (Inr rest)))"
    by (simp only: regroup(1)[OF y z] regroup(3)[OF y z] regroup(5)[OF y z] "4.IH")
  then show ?case by (simp only: x_def y_def z_def emit_byte)
qed

lemma b64encode_ascii: "list_all (\<lambda>c. (of_char c :: nat) < 128) (b64encode bs)"
proof (induction bs rule: b64encode.induct)
  case 1
  show ?case by simp
next
  case (2 a)
  have x: "(of_char a :: nat) < 256" by simp
  show ?case using sextets[OF x x x] by (simp add: Let_def b64_char_ascii)
next
  case (3 a b)
  have x: "(of_char a :: nat) < 256" and y: "(of_char b :: nat) < 256" by simp_all
  show ?case using sextets[OF x y y] by (simp add: Let_def b64_char_ascii)
next
  case (4 a b c rest)
  have x: "(of_char a :: nat) < 256" and y: "(of_char b :: nat) < 256"
    and z: "(of_char c :: nat) < 256" by simp_all
  show ?case using sextets[OF x y z] "4.IH" by (simp add: Let_def b64_char_ascii)
qed

lemma b64decode_b64encode: "b64decode (b64encode bs) = Inr bs"
  by (simp add: b64decode_def b64encode_ascii a2b_b64encode)

section \<open>The refresh cycle\<close>

lemma stored_picture_encode:
  "picture_write p = Inr block \<Longrightarrow> stored_picture (b64encode block) = Inr p"
  by (simp add: stored_picture_def b64decode_b64encode picture_load_write)

lemma stored_picture_loaded:
  assumes "stored_picture b = Inr pic"
  shows "\<exists>raw. b64decode b = Inr raw \<and> picture_load raw = Inr pic"
  using assms by (auto simp: stored_picture_def split: sum.splits)

lemma refresh_loop_ok:
  "map stored_picture bs = map Inr pics \<Longrightarrow>
   map (\<lambda>p. picture_write (if ptype p \<noteq> 3
                              then p\<lparr>ptype := 3, desc := text_of ''Front Cover''\<rparr> else p)) pics
     = map Inr blocks \<Longrightarrow>
   refresh_loop bs acc m
     = Inr (acc @ map b64encode blocks, m \<or> (\<exists>p\<in>set pics. ptype p \<noteq> 3))"
proof (induction bs arbitrary: pics blocks acc m)
  case Nil
  then show ?case by simp
next
  case (Cons b bs)
  from Cons.prems(1) obtain pic rest where pics: "pics = pic # rest"
    and b: "stored_picture b = Inr pic" and r: "map stored_picture bs = map Inr rest"
    by (cases pics) auto
  let ?pic' = "if ptype pic \<noteq> 3 then pic\<lparr>ptype := 3, desc := text_of ''Front Cover''\<rparr> else pic"
  let ?m' = "if ptype pic \<noteq> 3 then True else m"
  from Cons.prems(2) pics obtain block brest where blocks: "blocks = block # brest"
    and block: "picture_write ?pic' = Inr block"
    and br: "map (\<lambda>p. picture_write (if ptype p \<noteq> 3
                              then p\<lparr>ptype := 3, desc := text_of ''Front Cover''\<rparr> else p)) rest
             = map Inr brest"
    by (cases blocks) auto
  from stored_picture_loaded[OF b] obtain raw where raw: "b64decode b = Inr raw"
    "picture_load raw = Inr pic" by blast
  have step: "refresh_loop (b # bs) acc m = refresh_loop bs (acc @ [b64encode block]) ?m'"
    using raw block by (simp add: Let_def)
  have "refresh_loop bs (acc @ [b64encode block]) ?m'
      = Inr ((acc @ [b64encode block]) @ map b64encode brest,
             ?m' \<or> (\<exists>p\<in>set rest. ptype p \<noteq> 3))"
    using r br by (rule Cons.IH)
  then show ?case unfolding step pics blocks by auto
qed

lemma refresh_loop_readback:
  "map (\<lambda>p. picture_write (f p)) pics = map Inr blocks \<Longrightarrow>
   map stored_picture (map b64encode blocks) = map (\<lambda>p. Inr (f p)) pics"
proof (induction pics arbitrary: blocks)
  case Nil
  then show ?case by simp
next
  case (Cons p pics)
  then obtain block brest where "blocks = block # brest" "picture_write (f p) = Inr block"
    "map (\<lambda>p. picture_write (f p)) pics = map Inr brest"
    by (cases blocks) auto
  then show ?case using Cons.IH[of brest] by (simp add: stored_picture_encode)
qed

lemma refresh_cover_ok:
  assumes "vc ''metadata_block_picture'' = Some b64_pictures"
    and "map stored_picture b64_pictures = map Inr pics"
    and "map (\<lambda>p. picture_write (if ptype p \<noteq> 3
                              then p\<lparr>ptype := 3, desc := text_of ''Front Cover''\<rparr> else p)) pics
         = map Inr blocks"
  shows "refresh_cover (Some vc) True True
           = (if \<exists>p\<in>set pics. ptype p \<noteq> 3 then Fixed else Refreshed,
              [delitem vc ''metadata_block_picture'',
               setitem (delitem vc ''metadata_block_picture'') ''metadata_block_picture''
                 (map b64encode blocks)])"
    and "map stored_picture (map b64encode blocks)
           = map (\<lambda>p. Inr (if ptype p \<noteq> 3
                            then p\<lparr>ptype := 3, desc := text_of ''Front Cover''\<rparr> else p)) pics"
    and "refresh_cover (Some vc) False save2 = (Error IOError, [])"
    and "refresh_cover (Some vc) True False
           = (Error IOError, [delitem vc ''metadata_block_picture''])"
proof -
  have l: "refresh_loop b64_pictures [] False
      = Inr (map b64encode blocks, \<exists>p\<in>set pics. ptype p \<noteq> 3)"
    using refresh_loop_ok[OF assms(2,3), of "[]" False] by simp
  show "refresh_cover (Some vc) True True
           = (if \<exists>p\<in>set pics. ptype p \<noteq> 3 then Fixed else Refreshed,
              [delitem vc ''metadata_block_picture'',
               setitem (delitem vc ''metadata_block_picture'') ''metadata_block_picture''
                 (map b64encode blocks)])"
    using assms(1) l by (simp add: refresh_cover_def Let_def)
  show "map stored_picture (map b64encode blocks)
           = map (\<lambda>p. Inr (if ptype p \<noteq> 3
                            then p\<lparr>ptype := 3, desc := text_of ''Front Cover''\<rparr> else p)) pics"
    using assms(3) by (rule refresh_loop_readback)
  show "refresh_cover (Some vc) False save2 = (Error IOError, [])"
    using assms(1) l by (simp add: refresh_cover_def Let_def)
  show "refresh_cover (Some vc) True False
           = (Error IOError, [delitem vc ''metadata_block_picture''])"
    using assms(1) l by (simp add: refresh_cover_def Let_def)
qed

lemma stored_of_ok:
  "picture_write p = Inr block \<Longrightarrow> stored_picture (stored_of p) = Inr p"
  by (simp add: stored_of_def stored_picture_encode)

lemma back_cover_packs: "\<exists>block. picture_write back_cover = Inr block"
  unfolding back_cover_def
  by (rule exI, rule picture_write_ascii) (simp_all add: png_magic_def)

lemma front_cover_packs: "\<exists>block. picture_write front_cover = Inr block"
  unfolding front_cover_def
  by (rule exI, rule picture_write_ascii) (simp_all add: jpeg_magic_def)

lemma forced_back_cover_packs:
  "\<exists>block. picture_write (back_cover\<lparr>ptype := 3, desc := text_of ''Front Cover''\<rparr>) = Inr block"
proof -
  have "back_cover\<lparr>ptype := 3, desc := text_of ''Front Cover''\<rparr>
      = \<lparr>ptype = 3, mime = text_of ''image/png'', desc = text_of ''Front Cover'',
         width = 0, height = 0, depth = 0, colors = 0, pdata = png_magic\<rparr>"
    by (simp add: back_cover_def)
  then show ?thesis
    by (simp only:) (rule exI, rule picture_write_ascii, simp_all add: png_magic_def)
qed

lemma stored_back_cover: "stored_picture (stored_of back_cover) = Inr back_cover"
  using back_cover_packs stored_of_ok by blast

lemma stored_front_cover: "stored_picture (stored_of front_cover) = Inr front_cover"
  using front_cover_packs stored_of_ok by blast

lemma two_covers_stored:
  "two_cover_tags ''metadata_block_picture'' = Some [stored_of back_cover, stored_of front_cover]
   \<and> map stored_picture [stored_of back_cover, stored_of front_cover]
       = map Inr [back_cover, front_cover]"
  by (simp add: two_cover_tags_def stored_back_cover stored_front_cover)

lemma two_covers_pack:
  "\<exists>blocks. map (\<lambda>p. picture_write (if ptype p \<noteq> 3
                              then p\<lparr>ptype := 3, desc := text_of ''Front Cover''\<rparr> else p))
               [back_cover, front_cover] = map Inr blocks"
proof -
  from forced_back_cover_packs obtain b1 where
    b1: "picture_write (back_cover\<lparr>ptype := 3, desc := text_of ''Front Cover''\<rparr>) = Inr b1"
    by blast
  from front_cover_packs obtain b2 where b2: "picture_write front_cover = Inr b2" by blast
  have t: "ptype back_cover \<noteq> 3" "ptype front_cover = 3"
    by (simp_all add: back_cover_def front_cover_def)
  have "map (\<lambda>p. picture_write (if ptype p \<noteq> 3
                              then p\<lparr>ptype := 3, desc := text_of ''Front Cover''\<rparr> else p))
               [back_cover, front_cover] = map Inr [b1, b2]"
    using b1 b2 t by simp
  then show ?thesis by blast
qed

lemma refresh_loop_inv:
  "refresh_loop bs acc m = Inr (new, m') \<Longrightarrow>
   \<exists>pics blocks. map stored_picture bs = map Inr pics
     \<and> map (\<lambda>p. picture_write (if ptype p \<noteq> 3
                     then p\<lparr>ptype := 3, desc := text_of ''Front Cover''\<rparr> else p)) pics
         = map Inr blocks"
proof (induction bs arbitrary: acc m)
  case Nil
  show ?case by (intro exI[of _ "[]"]) simp
next
  case (Cons b bs)
  from Cons.prems obtain raw where raw: "b64decode b = Inr raw"
    by (cases "b64decode b") simp_all
  from Cons.prems raw obtain pic where pic: "picture_load raw = Inr pic"
    by (cases "picture_load raw") simp_all
  let ?pic' = "if ptype pic \<noteq> 3 then pic\<lparr>ptype := 3, desc := text_of ''Front Cover''\<rparr> else pic"
  let ?m' = "if ptype pic \<noteq> 3 then True else m"
  from Cons.prems raw pic obtain block where block: "picture_write ?pic' = Inr block"
    by (cases "picture_write ?pic'") (simp_all add: Let_def)
  from Cons.prems raw pic block
  have "refresh_loop bs (acc @ [b64encode block]) ?m' = Inr (new, m')"
    by (simp add: Let_def)
  from Cons.IH[OF this] obtain pics blocks where
    ih: "map stored_picture bs = map Inr pics"
    "map (\<lambda>p. picture_write (if ptype p \<noteq> 3
                     then p\<lparr>ptype := 3, desc := text_of ''Front Cover''\<rparr> else p)) pics
         = map Inr blocks"
    by blast
  have sp: "stored_picture b = Inr pic" using raw pic by (simp add: stored_picture_def)
  show ?case
    by (intro exI[of _ "pic # pics"] exI[of _ "block # blocks"]) (simp add: sp ih block)
qed

lemma refresh_cover_only:
  assumes "vc ''metadata_block_picture'' = Some b64_pictures"
    and "fst (refresh_cover (Some vc) save1 save2) = Fixed
         \<or> fst (refresh_cover (Some vc) save1 save2) = Refreshed"
  shows "save1 \<and> save2
     \<and> (\<exists>pics blocks. map stored_picture b64_pictures = map Inr pics
          \<and> map (\<lambda>p. picture_write (if ptype p \<noteq> 3
                     then p\<lparr>ptype := 3, desc := text_of ''Front Cover''\<rparr> else p)) pics
              = map Inr blocks)"
proof (cases "refresh_loop b64_pictures [] False")
  case (Inl e)
  with assms show ?thesis by (simp add: refresh_cover_def)
next
  case (Inr r)
  obtain new m' where r: "r = (new, m')" by (cases r)
  from assms Inr r have "save1 \<and> save2"
    by (auto simp: refresh_cover_def Let_def split: if_splits)
  moreover from Inr r have "refresh_loop b64_pictures [] False = Inr (new, m')" by simp
  then have "\<exists>pics blocks. map stored_picture b64_pictures = map Inr pics
          \<and> map (\<lambda>p. picture_write (if ptype p \<noteq> 3
                     then p\<lparr>ptype := 3, desc := text_of ''Front Cover''\<rparr> else p)) pics
              = map Inr blocks"
    by (rule refresh_loop_inv)
  ultimately show ?thesis by blast
qed

lemma refresh_cover_not_skip:
  assumes "vc ''metadata_block_picture'' = Some b64_pictures"
  shows "fst (refresh_cover (Some vc) save1 save2) \<noteq> Skip"
  using assms by (simp add: refresh_cover_def Let_def split: sum.splits prod.splits)

lemma refresh_cover_cases:
  "(vc ''metadata_block_picture'' = None \<longrightarrow>
      refresh_cover (Some vc) save1 save2 = (Skip, []))
   \<and> (vc ''metadata_block_picture'' = Some b64_pictures
        \<and> map stored_picture b64_pictures = map Inr pics
        \<and> map (\<lambda>p. picture_write (if ptype p \<noteq> 3
                       then p\<lparr>ptype := 3, desc := text_of ''Front Cover''\<rparr> else p)) pics
            = map Inr blocks \<longrightarrow>
        refresh_cover (Some vc) True True
          = (if \<exists>p\<in>set pics. ptype p \<noteq> 3 then Fixed else Refreshed,
             [delitem vc ''metadata_block_picture'',
              setitem (delitem vc ''metadata_block_picture'') ''metadata_block_picture''
                (map b64encode blocks)])
        \<and> map stored_picture (map b64encode blocks)
            = map (\<lambda>p. Inr (if ptype p \<noteq> 3
                             then p\<lparr>ptype := 3, desc := text_of ''Front Cover''\<rparr> else p)) pics
        \<and> refresh_cover (Some vc) False save2 = (Error IOError, [])
        \<and> refresh_cover (Some vc) True False
            = (Error IOError, [delitem vc ''metadata_block_picture'']))"
proof (intro conjI impI)
  assume "vc ''metadata_block_picture'' = None"
  then show "refresh_cover (Some vc) save1 save2 = (Skip, [])"
    by (simp add: refresh_cover_def)
next
  assume h: "vc ''metadata_block_picture'' = Some b64_pictures
        \<and> map stored_picture b64_pictures = map Inr pics
        \<and> map (\<lambda>p. picture_write (if ptype p \<noteq> 3
                       then p\<lparr>ptype := 3, desc := text_of ''Front Cover''\<rparr> else p)) pics
            = map Inr blocks"
  then have h1: "vc ''metadata_block_picture'' = Some b64_pictures"
    and h2: "map stored_picture b64_pictures = map Inr pics"
    and h3: "map (\<lambda>p. picture_write (if ptype p \<noteq> 3
                       then p\<lparr>ptype := 3, desc := text_of ''Front Cover''\<rparr> else p)) pics
            = map Inr blocks"
    by simp_all
  show "refresh_cover (Some vc) True True
          = (if \<exists>p\<in>set pics. ptype p \<noteq> 3 then Fixed else Refreshed,
             [delitem vc ''metadata_block_picture'',
              setitem (delitem vc ''metadata_block_picture'') ''metadata_block_picture''
                (map b64encode blocks)])"
    using h1 h2 h3 by (rule refresh_cover_ok(1))
  show "map stored_picture (map b64encode blocks)
            = map (\<lambda>p. Inr (if ptype p \<noteq> 3
                             then p\<lparr>ptype := 3, desc := text_of ''Front Cover''\<rparr> else p)) pics"
    using h1 h2 h3 by (rule refresh_cover_ok(2))
  show "refresh_cover (Some vc) False save2 = (Error IOError, [])"
    using h1 h2 h3 by (rule refresh_cover_ok(3))
  show "refresh_cover (Some vc) True False
            = (Error IOError, [delitem vc ''metadata_block_picture''])"
    using h1 h2 h3 by (rule refresh_cover_ok(4))
qed

text \<open>
  C1, as the code has it. Without a picture field the result is \<open>skip\<close> and nothing is
  saved. With a field whose values all decode and parse to pictures, and whose pictures,
  with the role forced, all pack again: when both saves succeed, the result is \<open>fixed\<close>
  when some picture has a role other than 3 and \<open>refreshed\<close> otherwise; the file is
  saved twice, first without the field and then with one value for each picture, in
  order. Each new value decodes and parses to the picture it came from, except that a
  picture whose role was not 3 now has role 3 and the description \<open>Front Cover\<close>. A
  picture whose role was already 3 keeps its description and all its other fields.
  When the first save fails the result is an error and nothing is written; when the
  second save fails the result is an error and the file is left without its pictures.
  Conversely, with a picture field the result is \<open>fixed\<close> or \<open>refreshed\<close> only when
  both saves succeed and every value decodes and parses to a picture that packs again;
  it is never \<open>skip\<close>, so in every other case it is an error.
\<close>

theorem refresh_cover_outcome:
  "(vc ''metadata_block_picture'' = None \<longrightarrow>
      refresh_cover (Some vc) save1 save2 = (Skip, []))
   \<and> (vc ''metadata_block_picture'' = Some b64_pictures
        \<and> map stored_picture b64_pictures = map Inr pics
        \<and> map (\<lambda>p. picture_write (if ptype p \<noteq> 3
                       then p\<lparr>ptype := 3, desc := text_of ''Front Cover''\<rparr> else p)) pics
            = map Inr blocks \<longrightarrow>
        refresh_cover (Some vc) True True
          = (if \<exists>p\<in>set pics. ptype p \<noteq> 3 then Fixed else Refreshed,
             [delitem vc ''metadata_block_picture'',
              setitem (delitem vc ''metadata_block_picture'') ''metadata_block_picture''
                (map b64encode blocks)])
        \<and> map stored_picture (map b64encode blocks)
            = map (\<lambda>p. Inr (if ptype p \<noteq> 3
                             then p\<lparr>ptype := 3, desc := text_of ''Front Cover''\<rparr> else p)) pics
        \<and> refresh_cover (Some vc) False save2 = (Error IOError, [])
        \<and> refresh_cover (Some vc) True False
            = (Error IOError, [delitem vc ''metadata_block_picture'']))
   \<and> (vc ''metadata_block_picture'' = Some b64_pictures
        \<and> (fst (refresh_cover (Some vc) save1 save2) = Fixed
             \<or> fst (refresh_cover (Some vc) save1 save2) = Refreshed) \<longrightarrow>
        save1 \<and> save2
        \<and> (\<exists>ps bs. map stored_picture b64_pictures = map Inr ps
              \<and> map (\<lambda>p. picture_write (if ptype p \<noteq> 3
                             then p\<lparr>ptype := 3, desc := text_of ''Front Cover''\<rparr> else p)) ps
                  = map Inr bs))
   \<and> (vc ''metadata_block_picture'' = Some b64_pictures \<longrightarrow>
        fst (refresh_cover (Some vc) save1 save2) \<noteq> Skip)"
proof -
  note a = refresh_cover_cases[of vc save1 save2 b64_pictures pics blocks]
  have b: "vc ''metadata_block_picture'' = Some b64_pictures
        \<and> (fst (refresh_cover (Some vc) save1 save2) = Fixed
             \<or> fst (refresh_cover (Some vc) save1 save2) = Refreshed) \<longrightarrow>
        save1 \<and> save2
        \<and> (\<exists>ps bs. map stored_picture b64_pictures = map Inr ps
              \<and> map (\<lambda>p. picture_write (if ptype p \<noteq> 3
                             then p\<lparr>ptype := 3, desc := text_of ''Front Cover''\<rparr> else p)) ps
                  = map Inr bs)"
  proof
    assume h: "vc ''metadata_block_picture'' = Some b64_pictures
        \<and> (fst (refresh_cover (Some vc) save1 save2) = Fixed
             \<or> fst (refresh_cover (Some vc) save1 save2) = Refreshed)"
    from refresh_cover_only[OF h[THEN conjunct1] h[THEN conjunct2]]
    show "save1 \<and> save2
        \<and> (\<exists>ps bs. map stored_picture b64_pictures = map Inr ps
              \<and> map (\<lambda>p. picture_write (if ptype p \<noteq> 3
                             then p\<lparr>ptype := 3, desc := text_of ''Front Cover''\<rparr> else p)) ps
                  = map Inr bs)" .
  qed
  have c: "vc ''metadata_block_picture'' = Some b64_pictures \<longrightarrow>
        fst (refresh_cover (Some vc) save1 save2) \<noteq> Skip"
    using refresh_cover_not_skip by blast
  from a[THEN conjunct1] a[THEN conjunct2] b c show ?thesis by (intro conjI)
qed

theorem refresh_cover_outcome_witness:
  "map stored_picture [stored_of back_cover, stored_of front_cover]
     = map Inr [back_cover, front_cover]
   \<and> fst (refresh_cover (Some two_cover_tags) True True) = Fixed
   \<and> fst (refresh_cover (Some two_cover_tags) True False) = Error IOError
   \<and> refresh_cover (Some Map.empty) True True = (Skip, [])"
proof -
  from two_covers_pack obtain blocks where
    blocks: "map (\<lambda>p. picture_write (if ptype p \<noteq> 3
                        then p\<lparr>ptype := 3, desc := text_of ''Front Cover''\<rparr> else p))
               [back_cover, front_cover] = map Inr blocks"
    by blast
  have c: "\<exists>p\<in>set [back_cover, front_cover]. ptype p \<noteq> 3"
    by (simp add: back_cover_def)
  have d: "Map.empty ''metadata_block_picture'' = (None :: string list option)" by simp
  from refresh_cover_outcome [of two_cover_tags True True
      "[stored_of back_cover, stored_of front_cover]" "[back_cover, front_cover]" blocks]
    two_covers_stored blocks
  have r: "refresh_cover (Some two_cover_tags) True True
      = (if \<exists>p\<in>set [back_cover, front_cover]. ptype p \<noteq> 3 then Fixed else Refreshed,
         [delitem two_cover_tags ''metadata_block_picture'',
          setitem (delitem two_cover_tags ''metadata_block_picture'') ''metadata_block_picture''
            (map b64encode blocks)])"
    and f: "refresh_cover (Some two_cover_tags) True False
      = (Error IOError, [delitem two_cover_tags ''metadata_block_picture''])"
    by blast+
  from r c have "fst (refresh_cover (Some two_cover_tags) True True) = Fixed"
    by (simp only: if_True fst_conv)
  moreover from f have "fst (refresh_cover (Some two_cover_tags) True False) = Error IOError"
    by simp
  moreover from refresh_cover_outcome [of Map.empty True True] d
  have "refresh_cover (Some Map.empty) True True = (Skip, [])" by blast
  ultimately show ?thesis using two_covers_stored by blast
qed

lemma b64decode_bang: "b64decode ''!'' = Inr []"
  by (simp add: b64decode_def b64_value_def)

lemma picture_load_empty: "picture_load [] = Inl (FlacError 8 0)"
  by (simp add: picture_load_def read_n_def)

lemma broken_cover_error:
  "refresh_cover (Some broken_cover_tags) save1 save2 = (Error (FlacError 8 0), [])"
proof -
  from stored_picture_loaded[OF stored_back_cover] obtain raw where
    raw: "b64decode (stored_of back_cover) = Inr raw" "picture_load raw = Inr back_cover"
    by blast
  from forced_back_cover_packs obtain block where
    block: "picture_write (back_cover\<lparr>ptype := 3, desc := text_of ''Front Cover''\<rparr>) = Inr block"
    by blast
  have t: "ptype back_cover \<noteq> 3" by (simp add: back_cover_def)
  have "refresh_loop [stored_of back_cover, ''!''] [] False = Inl (FlacError 8 0)"
    using raw block t by (simp add: Let_def b64decode_bang picture_load_empty)
  then show ?thesis
    by (simp add: refresh_cover_def broken_cover_tags_def)
qed

lemma utf8_decode_ff: "utf8_decode [CHR 0xFF] = [65533]"
  by simp

lemma utf8_encode_fffd: "utf8_encode [65533] = Inr [CHR 0xEF, CHR 0xBF, CHR 0xBD]"
  by (simp add: utf8_encode_def encodable_def utf8_cp_def char_of_eq_iff take_bit_eq_mod)

lemma utf8_encode_nil: "utf8_encode [] = Inr []"
  by (simp add: utf8_encode_def)

lemma latin1_cover_loads:
  "picture_load latin1_cover_block
   = Inr \<lparr>ptype = 3, mime = [], desc = [65533], width = 0, height = 0, depth = 0,
          colors = 0, pdata = []\<rparr>"
  using picture_load_layout[of 3 "[]" "[CHR 0xFF]" 0 0 0 0 "[]" "[]"]
  by (simp add: latin1_cover_block_def)

lemma latin1_cover_packs:
  "picture_write \<lparr>ptype = 3, mime = [], desc = [65533], width = 0, height = 0, depth = 0,
                   colors = 0, pdata = []\<rparr>
   = Inr (be32 3 @ be32 0 @ be32 3 @ [CHR 0xEF, CHR 0xBF, CHR 0xBD]
          @ be32 0 @ be32 0 @ be32 0 @ be32 0 @ be32 0)"
  by (simp add: picture_write_def utf8_encode_fffd utf8_encode_nil numeral_3_eq_3[symmetric])

lemma latin1_cover_refreshed:
  "refresh_cover (Some latin1_cover_tags) True True
   = (Refreshed,
      [delitem latin1_cover_tags ''metadata_block_picture'',
       setitem (delitem latin1_cover_tags ''metadata_block_picture'') ''metadata_block_picture''
         [b64encode (be32 3 @ be32 0 @ be32 3 @ [CHR 0xEF, CHR 0xBF, CHR 0xBD]
                     @ be32 0 @ be32 0 @ be32 0 @ be32 0 @ be32 0)]])"
proof -
  let ?p = "\<lparr>ptype = 3, mime = [], desc = [65533], width = 0, height = 0, depth = 0,
             colors = 0, pdata = []\<rparr> :: picture"
  let ?b = "be32 3 @ be32 0 @ be32 3 @ [CHR 0xEF, CHR 0xBF, CHR 0xBD]
            @ be32 0 @ be32 0 @ be32 0 @ be32 0 @ be32 0"
  have 1: "latin1_cover_tags ''metadata_block_picture'' = Some [b64encode latin1_cover_block]"
    by (simp add: latin1_cover_tags_def)
  have 2: "map stored_picture [b64encode latin1_cover_block] = map Inr [?p]"
    by (simp add: stored_picture_def b64decode_b64encode latin1_cover_loads)
  have 3: "map (\<lambda>p. picture_write (if ptype p \<noteq> 3
                       then p\<lparr>ptype := 3, desc := text_of ''Front Cover''\<rparr> else p)) [?p]
           = map Inr [?b]"
    using latin1_cover_packs by simp
  from refresh_cover_ok(1)[of latin1_cover_tags "[b64encode latin1_cover_block]" "[?p]" "[?b]"]
    1 2 3
  show ?thesis by simp
qed

text \<open>
  The claim as stated fails on the two stored covers: the result is \<open>fixed\<close>, and the
  second block, whose role was 3 already, still has the description \<open>cover.jpg\<close>;
  when the second save fails the result for the same file is an error.
  It fails as well where a stored value is not a picture block: the first block has
  role 4, and the result is an error, not \<open>fixed\<close>. And a block of role 3 is not
  stored back byte for byte: the result for the cover described by the byte \<open>FF\<close> is
  \<open>refreshed\<close>, and the new value holds 35 bytes where the old one held 33, the
  description being now the three bytes of U+FFFD.
\<close>

theorem refresh_keeps_description_counterexample:
  "fst (refresh_cover (Some two_cover_tags) True True) = Fixed
   \<and> map stored_picture
        (the (last (snd (refresh_cover (Some two_cover_tags) True True))
                ''metadata_block_picture''))
       = [Inr (back_cover\<lparr>ptype := 3, desc := text_of ''Front Cover''\<rparr>), Inr front_cover]
   \<and> ptype front_cover = 3
   \<and> desc front_cover \<noteq> text_of ''Front Cover''
   \<and> fst (refresh_cover (Some two_cover_tags) True False) = Error IOError
   \<and> broken_cover_tags ''metadata_block_picture'' = Some [stored_of back_cover, ''!'']
   \<and> stored_picture (stored_of back_cover) = Inr back_cover
   \<and> ptype back_cover = 4
   \<and> fst (refresh_cover (Some broken_cover_tags) True True) = Error (FlacError 8 0)
   \<and> map b64decode (the (latin1_cover_tags ''metadata_block_picture''))
       = [Inr latin1_cover_block]
   \<and> fst (refresh_cover (Some latin1_cover_tags) True True) = Refreshed
   \<and> map b64decode
        (the (last (snd (refresh_cover (Some latin1_cover_tags) True True))
                ''metadata_block_picture''))
       = [Inr (be32 3 @ be32 0 @ be32 3 @ [CHR 0xEF, CHR 0xBF, CHR 0xBD]
               @ be32 0 @ be32 0 @ be32 0 @ be32 0 @ be32 0)]
   \<and> length latin1_cover_block = 33
   \<and> length (be32 3 @ be32 0 @ be32 3 @ [CHR 0xEF, CHR 0xBF, CHR 0xBD]
             @ be32 0 @ be32 0 @ be32 0 @ be32 0 @ be32 0) = 35"
proof -
  from two_covers_pack obtain blocks where
    blocks: "map (\<lambda>p. picture_write (if ptype p \<noteq> 3
                        then p\<lparr>ptype := 3, desc := text_of ''Front Cover''\<rparr> else p))
               [back_cover, front_cover] = map Inr blocks"
    by blast
  have c: "\<exists>p\<in>set [back_cover, front_cover]. ptype p \<noteq> 3"
    by (simp add: back_cover_def)
  note ts = two_covers_stored[THEN conjunct1] two_covers_stored[THEN conjunct2]
  have r: "refresh_cover (Some two_cover_tags) True True
      = (if \<exists>p\<in>set [back_cover, front_cover]. ptype p \<noteq> 3 then Fixed else Refreshed,
         [delitem two_cover_tags ''metadata_block_picture'',
          setitem (delitem two_cover_tags ''metadata_block_picture'') ''metadata_block_picture''
            (map b64encode blocks)])"
    using ts blocks by (rule refresh_cover_ok(1))
  have n: "map stored_picture (map b64encode blocks)
      = map (\<lambda>p. Inr (if ptype p \<noteq> 3
                       then p\<lparr>ptype := 3, desc := text_of ''Front Cover''\<rparr> else p))
          [back_cover, front_cover]"
    using ts blocks by (rule refresh_cover_ok(2))
  from r c have 1: "fst (refresh_cover (Some two_cover_tags) True True) = Fixed"
    by (simp only: if_True fst_conv)
  from blocks have ne: "blocks \<noteq> []" by auto
  have "the (last (snd (refresh_cover (Some two_cover_tags) True True))
               ''metadata_block_picture'') = map b64encode blocks"
    unfolding r using ne by (simp add: setitem_def)
  moreover from n have "map stored_picture (map b64encode blocks)
      = [Inr (back_cover\<lparr>ptype := 3, desc := text_of ''Front Cover''\<rparr>), Inr front_cover]"
    by (simp add: back_cover_def front_cover_def)
  ultimately have 2: "map stored_picture
        (the (last (snd (refresh_cover (Some two_cover_tags) True True))
                ''metadata_block_picture''))
       = [Inr (back_cover\<lparr>ptype := 3, desc := text_of ''Front Cover''\<rparr>), Inr front_cover]"
    by simp
  have "refresh_cover (Some two_cover_tags) True False
      = (Error IOError, [delitem two_cover_tags ''metadata_block_picture''])"
    using ts blocks by (rule refresh_cover_ok(4))
  then have 3: "ptype front_cover = 3 \<and> desc front_cover \<noteq> text_of ''Front Cover''
      \<and> fst (refresh_cover (Some two_cover_tags) True False) = Error IOError"
    by (simp add: front_cover_def text_of_def)
  have 4: "broken_cover_tags ''metadata_block_picture'' = Some [stored_of back_cover, ''!'']
      \<and> ptype back_cover = 4"
    by (simp add: broken_cover_tags_def back_cover_def)
  have 5: "fst (refresh_cover (Some broken_cover_tags) True True) = Error (FlacError 8 0)"
    by (simp add: broken_cover_error)
  have 6: "map b64decode (the (latin1_cover_tags ''metadata_block_picture''))
       = [Inr latin1_cover_block]"
    by (simp add: latin1_cover_tags_def b64decode_b64encode)
  have 7: "fst (refresh_cover (Some latin1_cover_tags) True True) = Refreshed"
    by (simp add: latin1_cover_refreshed)
  have 8: "map b64decode
        (the (last (snd (refresh_cover (Some latin1_cover_tags) True True))
                ''metadata_block_picture''))
       = [Inr (be32 3 @ be32 0 @ be32 3 @ [CHR 0xEF, CHR 0xBF, CHR 0xBD]
               @ be32 0 @ be32 0 @ be32 0 @ be32 0 @ be32 0)]"
    by (simp add: latin1_cover_refreshed setitem_def b64decode_b64encode)
  have 9: "length latin1_cover_block = 33
   \<and> length (be32 3 @ be32 0 @ be32 3 @ [CHR 0xEF, CHR 0xBF, CHR 0xBD]
             @ be32 0 @ be32 0 @ be32 0 @ be32 0 @ be32 0) = 35"
    by (simp add: latin1_cover_block_def length_be32)
  from 1 2 3 4 5 6 7 8 9 stored_back_cover show ?thesis by blast
qed

section \<open>Cover extraction\<close>

lemma scan_apic_none:
  "(\<forall>k\<in>set keys. \<not> startswith k ''APIC:'') \<Longrightarrow> scan_apic tgs keys = None"
  by (induction keys) auto

lemma scan_apic_first:
  assumes "\<forall>k'\<in>set pre. \<not> startswith k' ''APIC:''" and "startswith k ''APIC:''"
  shows "scan_apic tgs (pre @ k # post)
     = (case map_of tgs k of
              Some (Frame d) \<Rightarrow> Some (Inr d)
            | Some v \<Rightarrow> Some (Inl AttributeError)
            | None \<Rightarrow> Some (Inl ValueError))"
  using assms by (induction pre) auto

lemma map_of_first:
  assumes "\<forall>k'\<in>set (map fst pre). \<not> startswith k' ''APIC:''" and "startswith k ''APIC:''"
  shows "map_of (pre @ (k, v) # post) k = Some v"
proof -
  from assms have "k \<notin> fst ` set pre" by auto
  then have "map_of pre k = None" by (simp add: map_of_eq_None_iff)
  then show ?thesis by (simp add: map_add_def)
qed

text \<open>
  C2: extraction takes the first source that applies, in this order. A picture list
  that is not empty gives the bytes of its first picture. Otherwise the first tag key
  with the prefix \<open>APIC:\<close> gives the bytes of its frame. Otherwise a cover list under
  \<open>covr\<close> that is not empty gives its first entry. Otherwise the result is \<open>None\<close>. An
  exception, from opening the file or from a tag value that is not what the scan
  expects, gives \<open>None\<close> as well.
\<close>

theorem extract_cover_dispatch:
  "extract_cover (Inl e) = None
   \<and> extract_cover (Inr None) = None
   \<and> (pictures a = Some (p # ps) \<longrightarrow> extract_cover (Inr (Some a)) = Some (pdata p))
   \<and> ((pictures a = None \<or> pictures a = Some []) \<and> tags a = None
        \<longrightarrow> extract_cover (Inr (Some a)) = None)
   \<and> ((pictures a = None \<or> pictures a = Some [])
        \<and> tags a = Some (pre @ (k, Frame d) # post)
        \<and> (\<forall>k'\<in>set (map fst pre). \<not> startswith k' ''APIC:'') \<and> startswith k ''APIC:''
        \<longrightarrow> extract_cover (Inr (Some a)) = Some d)
   \<and> ((pictures a = None \<or> pictures a = Some [])
        \<and> tags a = Some (pre @ (k, v) # post)
        \<and> (\<forall>k'\<in>set (map fst pre). \<not> startswith k' ''APIC:'') \<and> startswith k ''APIC:''
        \<and> (\<forall>d'. v \<noteq> Frame d')
        \<longrightarrow> extract_cover (Inr (Some a)) = None)
   \<and> ((pictures a = None \<or> pictures a = Some [])
        \<and> tags a = Some tgs
        \<and> (\<forall>k'\<in>set (map fst tgs). \<not> startswith k' ''APIC:'')
        \<and> map_of tgs ''covr'' = Some (Covers (c # cs))
        \<longrightarrow> extract_cover (Inr (Some a)) = Some c)
   \<and> ((pictures a = None \<or> pictures a = Some [])
        \<and> tags a = Some tgs
        \<and> (\<forall>k'\<in>set (map fst tgs). \<not> startswith k' ''APIC:'')
        \<and> (\<forall>c' cs'. map_of tgs ''covr'' \<noteq> Some (Covers (c' # cs')))
        \<longrightarrow> extract_cover (Inr (Some a)) = None)"
proof (intro conjI impI)
  show "extract_cover (Inl e) = None" by (simp add: extract_cover_def)
  show "extract_cover (Inr None) = None" by (simp add: extract_cover_def extract_body_def)
next
  assume "pictures a = Some (p # ps)"
  then show "extract_cover (Inr (Some a)) = Some (pdata p)"
    by (simp add: extract_cover_def extract_body_def)
next
  assume "(pictures a = None \<or> pictures a = Some []) \<and> tags a = None"
  then show "extract_cover (Inr (Some a)) = None"
    by (auto simp: extract_cover_def extract_body_def)
next
  assume h: "(pictures a = None \<or> pictures a = Some [])
        \<and> tags a = Some (pre @ (k, Frame d) # post)
        \<and> (\<forall>k'\<in>set (map fst pre). \<not> startswith k' ''APIC:'') \<and> startswith k ''APIC:''"
  then have m: "map_of (pre @ (k, Frame d) # post) k = Some (Frame d)"
    by (intro map_of_first) auto
  from h have "scan_apic (pre @ (k, Frame d) # post) (map fst pre @ k # map fst post)
      = (case map_of (pre @ (k, Frame d) # post) k of
              Some (Frame d) \<Rightarrow> Some (Inr d)
            | Some v \<Rightarrow> Some (Inl AttributeError)
            | None \<Rightarrow> Some (Inl ValueError))"
    by (intro scan_apic_first) auto
  then have "scan_apic (pre @ (k, Frame d) # post) (map fst pre @ k # map fst post)
      = Some (Inr d)"
    by (simp only: m option.case tag_value.case)
  with h show "extract_cover (Inr (Some a)) = Some d"
    by (auto simp: extract_cover_def extract_body_def)
next
  assume h: "(pictures a = None \<or> pictures a = Some [])
        \<and> tags a = Some (pre @ (k, v) # post)
        \<and> (\<forall>k'\<in>set (map fst pre). \<not> startswith k' ''APIC:'') \<and> startswith k ''APIC:''
        \<and> (\<forall>d'. v \<noteq> Frame d')"
  then have m: "map_of (pre @ (k, v) # post) k = Some v"
    by (intro map_of_first) auto
  from h have "scan_apic (pre @ (k, v) # post) (map fst pre @ k # map fst post)
      = (case map_of (pre @ (k, v) # post) k of
              Some (Frame d) \<Rightarrow> Some (Inr d)
            | Some v \<Rightarrow> Some (Inl AttributeError)
            | None \<Rightarrow> Some (Inl ValueError))"
    by (intro scan_apic_first) auto
  then have "scan_apic (pre @ (k, v) # post) (map fst pre @ k # map fst post)
      = (case v of Frame d \<Rightarrow> Some (Inr d) | _ \<Rightarrow> Some (Inl AttributeError))"
    by (simp only: m option.case)
  with h have "scan_apic (pre @ (k, v) # post) (map fst pre @ k # map fst post)
      = Some (Inl AttributeError)"
    by (cases v) auto
  with h show "extract_cover (Inr (Some a)) = None"
    by (auto simp: extract_cover_def extract_body_def)
next
  assume h: "(pictures a = None \<or> pictures a = Some [])
        \<and> tags a = Some tgs
        \<and> (\<forall>k'\<in>set (map fst tgs). \<not> startswith k' ''APIC:'')
        \<and> map_of tgs ''covr'' = Some (Covers (c # cs))"
  then have "scan_apic tgs (map fst tgs) = None" by (intro scan_apic_none) auto
  with h show "extract_cover (Inr (Some a)) = Some c"
    by (auto simp: extract_cover_def extract_body_def)
next
  assume h: "(pictures a = None \<or> pictures a = Some [])
        \<and> tags a = Some tgs
        \<and> (\<forall>k'\<in>set (map fst tgs). \<not> startswith k' ''APIC:'')
        \<and> (\<forall>c' cs'. map_of tgs ''covr'' \<noteq> Some (Covers (c' # cs')))"
  then have "scan_apic tgs (map fst tgs) = None" by (intro scan_apic_none) auto
  with h show "extract_cover (Inr (Some a)) = None"
    by (auto simp: extract_cover_def extract_body_def
        split: option.splits tag_value.splits list.splits)
qed


theorem extract_cover_dispatch_witness:
  "extract_cover (Inr (Some \<lparr>pictures = Some [],
       tags = Some [(''TIT2'', Text [''Song'']), (''APIC:Cover'', Frame ''image bytes''),
                    (''covr'', Covers [''other bytes''])]\<rparr>)) = Some ''image bytes''
   \<and> extract_cover (Inr (Some \<lparr>pictures = Some [front_cover, back_cover],
       tags = Some [(''APIC:Cover'', Frame ''image bytes'')]\<rparr>)) = Some (pdata front_cover)
   \<and> extract_cover (Inr (Some \<lparr>pictures = None,
       tags = Some [(''covr'', Covers [''other bytes''])]\<rparr>)) = Some ''other bytes''
   \<and> extract_cover (Inr (Some \<lparr>pictures = None, tags = Some []\<rparr>)) = None"
proof -
  have 1: "extract_cover (Inr (Some \<lparr>pictures = Some [],
       tags = Some [(''TIT2'', Text [''Song'']), (''APIC:Cover'', Frame ''image bytes''),
                    (''covr'', Covers [''other bytes''])]\<rparr>)) = Some ''image bytes''"
    using extract_cover_dispatch [of _ "\<lparr>pictures = Some [],
       tags = Some [(''TIT2'', Text [''Song'']), (''APIC:Cover'', Frame ''image bytes''),
                    (''covr'', Covers [''other bytes''])]\<rparr>" _ _
       "[(''TIT2'', Text [''Song''])]" "''APIC:Cover''" "''image bytes''"
       "[(''covr'', Covers [''other bytes''])]"]
    by (simp add: startswith_def)
  have 2: "extract_cover (Inr (Some \<lparr>pictures = Some [front_cover, back_cover],
       tags = Some [(''APIC:Cover'', Frame ''image bytes'')]\<rparr>)) = Some (pdata front_cover)"
    by (simp add: extract_cover_def extract_body_def)
  have 3: "extract_cover (Inr (Some \<lparr>pictures = None,
       tags = Some [(''covr'', Covers [''other bytes''])]\<rparr>)) = Some ''other bytes''"
    by (simp add: extract_cover_def extract_body_def startswith_def)
  have 4: "extract_cover (Inr (Some \<lparr>pictures = None, tags = Some []\<rparr>)) = None"
    by (simp add: extract_cover_def extract_body_def)
  from 1 2 3 4 show ?thesis by blast
qed

section \<open>Cover embedding\<close>

lemma be32_3: "be32 3 = [CHR 0x00, CHR 0x00, CHR 0x00, CHR 0x03]"
  by (simp add: be32_def char_of_eq_iff take_bit_eq_mod)

lemma make_picture_packs:
  assumes "length image_data < 4294967296"
  shows "\<exists>block. picture_write (make_picture image_data) = Inr block \<and> take 4 block = be32 3"
proof -
  have "\<exists>m. list_all (\<lambda>c. (of_char c :: nat) < 128) m \<and> length m < 4294967296
      \<and> make_picture image_data
          = \<lparr>ptype = 3, mime = text_of m, desc = text_of ''Front Cover'',
             width = 0, height = 0, depth = 0, colors = 0, pdata = image_data\<rparr>"
  proof (cases "take 3 image_data \<noteq> jpeg_magic \<and> take 8 image_data = png_magic")
    case True
    then have "make_picture image_data
          = \<lparr>ptype = 3, mime = text_of ''image/png'', desc = text_of ''Front Cover'',
             width = 0, height = 0, depth = 0, colors = 0, pdata = image_data\<rparr>"
      by (simp add: make_picture_def)
    moreover have "list_all (\<lambda>c. (of_char c :: nat) < 128) ''image/png''" by simp
    ultimately show ?thesis by (intro exI[of _ "''image/png''"]) simp
  next
    case False
    then have "make_picture image_data
          = \<lparr>ptype = 3, mime = text_of ''image/jpeg'', desc = text_of ''Front Cover'',
             width = 0, height = 0, depth = 0, colors = 0, pdata = image_data\<rparr>"
      by (auto simp add: make_picture_def)
    moreover have "list_all (\<lambda>c. (of_char c :: nat) < 128) ''image/jpeg''" by simp
    ultimately show ?thesis by (intro exI[of _ "''image/jpeg''"]) simp
  qed
  then obtain m where m: "list_all (\<lambda>c. (of_char c :: nat) < 128) m" "length m < 4294967296"
    and p: "make_picture image_data
          = \<lparr>ptype = 3, mime = text_of m, desc = text_of ''Front Cover'',
             width = 0, height = 0, depth = 0, colors = 0, pdata = image_data\<rparr>"
    by blast
  have d: "list_all (\<lambda>c. (of_char c :: nat) < 128) ''Front Cover''" by simp
  have "picture_write (make_picture image_data)
      = Inr (be32 3 @ be32 (length m) @ m @ be32 (length ''Front Cover'') @ ''Front Cover''
                @ be32 0 @ be32 0 @ be32 0 @ be32 0 @ be32 (length image_data) @ image_data)"
    unfolding p using m(1) d _ m(2) _ assms by (rule picture_write_ascii) simp_all
  then show ?thesis by (simp add: length_be32)
qed

text \<open>
  C3: for image bytes that fit a block (fewer than \<open>2\<^sup>3\<^sup>2\<close>), \<open>embed_cover\<close> packs a
  picture block, stores its base64 text as the only picture value and returns
  \<open>True\<close>; when the save fails it returns \<open>False\<close>. The block starts with the role 3, and read back it declares role 3, the
  description \<open>Front Cover\<close>, the image bytes as given, and the MIME type
  \<open>image/jpeg\<close> when the bytes begin with \<open>FF D8 FF\<close>, \<open>image/png\<close> when they begin
  with \<open>89 50 4E 47 0D 0A 1A 0A\<close>, and \<open>image/jpeg\<close> in every other case.
\<close>

theorem embed_cover_mime:
  assumes "length image_data < 4294967296"
  shows "\<exists>block pic.
      picture_write (make_picture image_data) = Inr block
      \<and> embed_cover (Some comments) image_data True
          = (True, [setitem comments ''metadata_block_picture'' [b64encode block]])
      \<and> embed_cover (Some comments) image_data False = (False, [])
      \<and> take 4 block = [CHR 0x00, CHR 0x00, CHR 0x00, CHR 0x03]
      \<and> stored_picture (b64encode block) = Inr pic
      \<and> ptype pic = 3 \<and> desc pic = text_of ''Front Cover'' \<and> pdata pic = image_data
      \<and> (take 3 image_data = [CHR 0xFF, CHR 0xD8, CHR 0xFF] \<longrightarrow>
           mime pic = text_of ''image/jpeg'')
      \<and> (take 8 image_data = [CHR 0x89, CHR 0x50, CHR 0x4E, CHR 0x47, CHR 0x0D, CHR 0x0A,
                                CHR 0x1A, CHR 0x0A] \<longrightarrow> mime pic = text_of ''image/png'')
      \<and> (take 3 image_data \<noteq> [CHR 0xFF, CHR 0xD8, CHR 0xFF]
           \<and> take 8 image_data \<noteq> [CHR 0x89, CHR 0x50, CHR 0x4E, CHR 0x47, CHR 0x0D, CHR 0x0A,
                                CHR 0x1A, CHR 0x0A] \<longrightarrow> mime pic = text_of ''image/jpeg'')"
proof -
  let ?pic = "make_picture image_data"
  from make_picture_packs[OF assms] obtain block where block: "picture_write ?pic = Inr block"
    and hd: "take 4 block = be32 3"
    by blast
  have e: "embed_cover (Some comments) image_data True
          = (True, [setitem comments ''metadata_block_picture'' [b64encode block]])"
    "embed_cover (Some comments) image_data False = (False, [])"
    using block by (simp_all add: embed_cover_def)
  have s: "stored_picture (b64encode block) = Inr ?pic"
    using block by (rule stored_picture_encode)
  have f: "ptype ?pic = 3 \<and> desc ?pic = text_of ''Front Cover'' \<and> pdata ?pic = image_data"
    by (simp add: make_picture_def)
  have j: "take 3 image_data = [CHR 0xFF, CHR 0xD8, CHR 0xFF] \<longrightarrow>
      mime ?pic = text_of ''image/jpeg''"
    by (simp add: make_picture_def jpeg_magic_def)
  have p: "take 8 image_data = [CHR 0x89, CHR 0x50, CHR 0x4E, CHR 0x47, CHR 0x0D, CHR 0x0A,
                                CHR 0x1A, CHR 0x0A] \<longrightarrow> mime ?pic = text_of ''image/png''"
  proof
    assume t8: "take 8 image_data = [CHR 0x89, CHR 0x50, CHR 0x4E, CHR 0x47, CHR 0x0D, CHR 0x0A,
                                CHR 0x1A, CHR 0x0A]"
    have "take 3 image_data = take 3 (take 8 image_data)" by simp
    also have "\<dots> = [CHR 0x89, CHR 0x50, CHR 0x4E]" unfolding t8 by simp
    finally have "take 3 image_data \<noteq> jpeg_magic" by (simp add: jpeg_magic_def)
    with t8 show "mime ?pic = text_of ''image/png''"
      by (simp add: make_picture_def png_magic_def)
  qed
  have o: "take 3 image_data \<noteq> [CHR 0xFF, CHR 0xD8, CHR 0xFF]
           \<and> take 8 image_data \<noteq> [CHR 0x89, CHR 0x50, CHR 0x4E, CHR 0x47, CHR 0x0D, CHR 0x0A,
                                CHR 0x1A, CHR 0x0A] \<longrightarrow> mime ?pic = text_of ''image/jpeg''"
    by (simp add: make_picture_def jpeg_magic_def png_magic_def)
  from block e hd s f j p o show ?thesis unfolding be32_3 by blast
qed

theorem embed_cover_mime_witness:
  "mime (make_picture (png_magic @ ''rest of the image'')) = text_of ''image/png''
   \<and> mime (make_picture (jpeg_magic @ ''rest of the image'')) = text_of ''image/jpeg''
   \<and> mime (make_picture ''GIF89a'') = text_of ''image/jpeg''
   \<and> fst (embed_cover (Some Map.empty) (png_magic @ ''rest of the image'') True)
   \<and> embed_cover (Some Map.empty) (png_magic @ ''rest of the image'') False = (False, [])"
proof -
  have l: "length (png_magic @ ''rest of the image'') < 4294967296"
    by (simp add: png_magic_def)
  have 1: "mime (make_picture (png_magic @ ''rest of the image'')) = text_of ''image/png''"
    by (simp add: make_picture_def png_magic_def jpeg_magic_def)
  have 2: "mime (make_picture (jpeg_magic @ ''rest of the image'')) = text_of ''image/jpeg''"
    by (simp add: make_picture_def png_magic_def jpeg_magic_def)
  have 3: "mime (make_picture ''GIF89a'') = text_of ''image/jpeg''"
    by (simp add: make_picture_def png_magic_def jpeg_magic_def)
  from embed_cover_mime [OF l, of Map.empty]
  have 4: "fst (embed_cover (Some Map.empty) (png_magic @ ''rest of the image'') True)
      \<and> embed_cover (Some Map.empty) (png_magic @ ''rest of the image'') False = (False, [])"
    by auto
  from 1 2 3 4 show ?thesis by blast
qed

section \<open>Paths of the walk\<close>

lemma split_on_single: "sep \<notin> set s \<Longrightarrow> split_on sep s = [s]"
  by (induction s) auto

lemma joinpath_child:
  assumes "n \<noteq> []" and "n \<noteq> ''.''" and "CHR ''/'' \<notin> set n"
  shows "joinpath p n = child p n"
proof -
  from assms(1,3) have "hd n \<noteq> CHR ''/''" by (cases n) auto
  with assms show ?thesis
    by (simp add: joinpath_def Path_of_def child_def split_on_single)
qed

lemma below_refl: "below d d"
  by (simp add: below_def)

lemma below_child: "below (child d n) p \<Longrightarrow> below d p"
proof -
  assume h: "below (child d n) p"
  then have t: "take (Suc (length (parts d))) (parts p) = parts d @ [n]"
    by (simp add: below_def child_def)
  have "take (length (parts d)) (parts p)
      = take (length (parts d)) (take (Suc (length (parts d))) (parts p))"
    by simp
  also have "\<dots> = parts d" unfolding t by simp
  finally show ?thesis using h by (simp add: below_def child_def)
qed

lemma walk_below_both:
  "\<forall>(r, fs)\<in>set (walk d es). below d r"
  "\<forall>(r, fs)\<in>set (walk_dirs d es). below d r"
proof (induction d es and d es rule: walk_walk_dirs.induct)
  case (1 root_dir es)
  then show ?case by (auto simp: below_refl)
next
  case (2 root_dir)
  show ?case by simp
next
  case (3 root_dir n es)
  then show ?case by auto
next
  case (4 root_dir n sub es)
  then show ?case by (auto dest: below_child)
qed

text \<open>
  Every directory of the walk lies below \<open>source_dir\<close>, so \<open>source_dir.parent\<close> is a
  prefix of the path of each file the walker handles: \<open>relative_to\<close> does not raise.
\<close>

lemma walk_below:
  assumes "(r, fs) \<in> set (walk source_dir es)"
  shows "is_abs (child r f) = is_abs (parent source_dir)
     \<and> take (length (parts (parent source_dir))) (parts (child r f)) = parts (parent source_dir)"
proof -
  from assms walk_below_both(1)[of source_dir es] have b: "below source_dir r" by auto
  then have t: "take (length (parts source_dir)) (parts r) = parts source_dir"
    and a: "is_abs r = is_abs source_dir" by (simp_all add: below_def)
  let ?k = "length (parts source_dir) - 1"
  have le: "?k \<le> length (parts source_dir)" by simp
  have "take ?k (parts r) = take ?k (take (length (parts source_dir)) (parts r))"
    using le by (simp add: min_def)
  also have "\<dots> = butlast (parts source_dir)" unfolding t by (simp add: butlast_conv_take)
  finally have "take ?k (parts r) = butlast (parts source_dir)" .
  moreover have "?k \<le> length (parts r)"
  proof -
    from arg_cong[OF t, of length]
    have "min (length (parts r)) (length (parts source_dir)) = length (parts source_dir)"
      by simp
    then show ?thesis by linarith
  qed
  ultimately show ?thesis using a by (simp add: parent_def child_def)
qed

end
